theory Spec2Isabelle
  imports Complex_Main "HOL-Library.Word" "HOL-Library.Log_Nat"
begin

section \<open>Dominant-colour extraction of the colour palette builder\<close>

text \<open>
  The component \<open>ColorPalette\<close> holds two functions with algorithmic content:
  \<open>rgbToHex\<close> (the encoder) and \<open>extractColorsFromImage\<close> (canvas sizing, sampling,
  quantisation, counting, ranking).  Both are embedded here.

  A JavaScript \<open>number\<close> that is finite is modelled as a \<open>real\<close>, and a division or
  multiplication of numbers as the exact operation followed by the rounding of doubles;
  where the source only ever holds integers (the grouped channels, the counts) the model
  uses \<open>int\<close> and \<open>nat\<close>.  The pixel buffer \<open>imageData.data\<close> is a \<open>Uint8ClampedArray\<close>: a list of bytes.
  Reading a typed array out of range gives \<open>undefined\<close>, modelled as \<open>None\<close>.
\<close>

subsection \<open>The JavaScript primitives the source calls\<close>

definition Math_floor :: "real \<Rightarrow> int" where
  "Math_floor x = \<lfloor>x\<rfloor>"

text \<open>\<open>Math.round\<close> returns the nearest integer, and of two equally near ones the
  larger: it is \<open>floor (x + 1/2)\<close>.\<close>

definition Math_round :: "real \<Rightarrow> int" where
  "Math_round x = \<lfloor>x + 1 / 2\<rfloor>"

text \<open>
  Arithmetic on numbers is arithmetic on doubles: an operation returns the exact result
  rounded to the nearest number with a significand of 53 bits, a tie going to the even
  significand.  \<open>fl\<close> is that rounding.  It leaves the exponent unbounded, which is
  binary64 for magnitudes from \<open>2^-1022\<close> up to \<open>2^1024\<close>; the quotients and products
  computed here, for image sides below \<open>2^32\<close>, lie between \<open>2^-25\<close> and 301.
\<close>

definition roundHalfEven :: "real \<Rightarrow> int" where
  "roundHalfEven y =
     (let f = \<lfloor>y\<rfloor>; d = y - of_int f
      in if d < 1 / 2 then f else if 1 / 2 < d then f + 1 else if even f then f else f + 1)"

text \<open>The exponent \<open>e\<close> with \<open>2^e \<le> x < 2^(e+1)\<close>, for positive \<open>x\<close>.\<close>

definition binade :: "real \<Rightarrow> int" where
  "binade x =
     (if 1 \<le> x then int (floorlog 2 (nat \<lfloor>x\<rfloor>)) - 1
      else - int (floorlog 2 (nat \<lceil>1 / x\<rceil> - 1)))"

definition fl :: "real \<Rightarrow> real" where
  "fl x =
     (if x = 0 then 0
      else let u = 2 powi (binade \<bar>x\<bar> - 52) in of_int (roundHalfEven (x / u)) * u)"

definition digitChar :: "nat \<Rightarrow> char" where
  "digitChar d = ''0123456789abcdefghijklmnopqrstuvwxyz'' ! d"

text \<open>\<open>Number.prototype.toString(radix)\<close> on an integer: the digits of the magnitude,
  most significant first, lower-case letters for the digits from ten on, and a leading
  minus sign for a negative number.\<close>

fun natToString :: "nat \<Rightarrow> nat \<Rightarrow> string" where
  "natToString radix n =
     (if radix < 2 \<or> n < radix then [digitChar n]
      else natToString radix (n div radix) @ [digitChar (n mod radix)])"

declare natToString.simps [simp del]

definition toString :: "nat \<Rightarrow> int \<Rightarrow> string" where
  "toString radix x =
     (if x < 0 then CHR ''-'' # natToString radix (nat (- x)) else natToString radix (nat x))"

definition lowerChar :: "char \<Rightarrow> char" where
  "lowerChar c =
     (case map_of (zip ''ABCDEFGHIJKLMNOPQRSTUVWXYZ'' ''abcdefghijklmnopqrstuvwxyz'') c of
        Some l \<Rightarrow> l
      | None \<Rightarrow> c)"

definition toLowerCase :: "string \<Rightarrow> string" where
  "toLowerCase s = map lowerChar s"

subsection \<open>The encoder \<open>rgbToHex\<close>\<close>

definition hexPair :: "int \<Rightarrow> string" where
  "hexPair x =
     (let hex = toLowerCase (toString 16 x)
      in if length hex = 1 then ''0'' @ hex else hex)"

definition rgbToHex :: "real \<Rightarrow> real \<Rightarrow> real \<Rightarrow> string" where
  "rgbToHex r g b =
     (let clampedR = max 0 (min 255 (Math_floor r));
          clampedG = max 0 (min 255 (Math_floor g));
          clampedB = max 0 (min 255 (Math_floor b))
      in ''#'' @ concat (map hexPair [clampedR, clampedG, clampedB]))"

subsection \<open>The canvas size\<close>

text \<open>\<open>maxSize / imageElement.width\<close> and \<open>imageElement.width * ratio\<close> are a division
  and a multiplication of doubles.  The sides of a decoded image are positive; the model
  leaves out the \<open>Infinity\<close> that a side of 0 would give.\<close>

abbreviation maxSize :: real where
  "maxSize \<equiv> 300"

definition ratio :: "nat \<Rightarrow> nat \<Rightarrow> real" where
  "ratio width height = min (fl (maxSize / real width)) (fl (maxSize / real height))"

text \<open>Assigning a number to \<open>canvas.width\<close> converts it to an \<open>unsigned long\<close>: for a
  number from 0 up to \<open>2^31\<close>, its integer part.\<close>

definition unsignedLong :: "real \<Rightarrow> nat" where
  "unsignedLong x = nat \<lfloor>x\<rfloor>"

definition canvasWidth :: "nat \<Rightarrow> nat \<Rightarrow> nat" where
  "canvasWidth width height = unsignedLong (fl (real width * ratio width height))"

definition canvasHeight :: "nat \<Rightarrow> nat \<Rightarrow> nat" where
  "canvasHeight width height = unsignedLong (fl (real height * ratio width height))"

subsection \<open>The colour frequency map\<close>

text \<open>The value type of \<open>colorMap\<close>, \<open>{ r, g, b, count }\<close>.\<close>

record bucket =
  bucket_r :: int
  bucket_g :: int
  bucket_b :: int
  bucket_count :: nat

text \<open>A JavaScript \<open>Map\<close> iterates in the order in which its keys were first set, so it
  is an association list in insertion order: \<open>set\<close> on a new key appends, and on a key
  already present replaces the value where it stands.\<close>

type_synonym colorMap = "(string \<times> bucket) list"

definition Map_has :: "colorMap \<Rightarrow> string \<Rightarrow> bool" where
  "Map_has m k = (map_of m k \<noteq> None)"

fun Map_modify :: "(bucket \<Rightarrow> bucket) \<Rightarrow> string \<Rightarrow> colorMap \<Rightarrow> colorMap" where
  "Map_modify f k [] = []"
| "Map_modify f k ((k', v) # m) =
     (if k' = k then (k', f v) # m else (k', v) # Map_modify f k m)"

definition Map_set :: "colorMap \<Rightarrow> string \<Rightarrow> bucket \<Rightarrow> colorMap" where
  "Map_set m k v = (if Map_has m k then Map_modify (\<lambda>_. v) k m else m @ [(k, v)])"

definition Map_values :: "colorMap \<Rightarrow> bucket list" where
  "Map_values m = map snd m"

subsection \<open>Sampling, quantisation and counting\<close>

definition byteAt :: "8 word list \<Rightarrow> nat \<Rightarrow> 8 word option" where
  "byteAt pixels i = (if i < length pixels then Some (pixels ! i) else None)"

text \<open>\<open>alpha < 128\<close>: the comparison of \<open>undefined\<close> with a number is false.\<close>

definition alphaBelow128 :: "8 word option \<Rightarrow> bool" where
  "alphaBelow128 alpha = (case alpha of None \<Rightarrow> False | Some a \<Rightarrow> unat a < 128)"

text \<open>\<open>Math.round(x / 20) * 20\<close> on a byte: the division is a division of doubles; the
  rounded quotient is an integer below 14, and its product with 20 is exact.\<close>

definition grouped :: "8 word \<Rightarrow> int" where
  "grouped x = Math_round (fl (real (unat x) / 20)) * 20"

definition colorKey :: "int \<Rightarrow> int \<Rightarrow> int \<Rightarrow> string" where
  "colorKey groupedR groupedG groupedB =
     toString 10 groupedR @ ''-'' @ toString 10 groupedG @ ''-'' @ toString 10 groupedB"

text \<open>The body of the sampling loop at byte index \<open>i\<close>.\<close>

definition visit :: "8 word list \<Rightarrow> nat \<Rightarrow> colorMap \<Rightarrow> colorMap" where
  "visit pixels i m =
     (let r = byteAt pixels i;
          g = byteAt pixels (i + 1);
          b = byteAt pixels (i + 2);
          alpha = byteAt pixels (i + 3)
      in if alphaBelow128 alpha then m
         else (case (r, g, b) of
             (Some rv, Some gv, Some bv) \<Rightarrow>
               (let groupedR = grouped rv;
                    groupedG = grouped gv;
                    groupedB = grouped bv;
                    key = colorKey groupedR groupedG groupedB
                in if Map_has m key
                   then Map_modify (\<lambda>existing. existing\<lparr>bucket_count := bucket_count existing + 1\<rparr>) key m
                   else Map_set m key
                     \<lparr>bucket_r = groupedR, bucket_g = groupedG, bucket_b = groupedB, bucket_count = 1\<rparr>)
           | _ \<Rightarrow> m))"

text \<open>\<open>for (let i = 0; i < pixels.length; i += 16)\<close>, from any start index.\<close>

function scan :: "8 word list \<Rightarrow> nat \<Rightarrow> colorMap \<Rightarrow> colorMap" where
  "scan pixels i m = (if i < length pixels then scan pixels (i + 16) (visit pixels i m) else m)"
  by pat_completeness auto
termination
  by (relation "measure (\<lambda>(pixels, i, m). length pixels - i)") auto

declare scan.simps [simp del]

text \<open>The byte indices at which the loop runs its body, in order.\<close>

function visited :: "nat \<Rightarrow> nat \<Rightarrow> nat list" where
  "visited len i = (if i < len then i # visited len (i + 16) else [])"
  by pat_completeness auto
termination
  by (relation "measure (\<lambda>(len, i). len - i)") auto

declare visited.simps [simp del]

subsection \<open>Ranking and encoding\<close>

text \<open>\<open>Array.prototype.sort(compare)\<close> is a stable sort (ECMAScript 2019): an element
  goes before another when \<open>compare\<close> is negative, and elements that compare equal keep
  their order.  A stable sort has one result; insertion from the right computes it.\<close>

fun insertBy :: "('a \<Rightarrow> 'a \<Rightarrow> int) \<Rightarrow> 'a \<Rightarrow> 'a list \<Rightarrow> 'a list" where
  "insertBy compare x [] = [x]"
| "insertBy compare x (y # ys) =
     (if compare x y \<le> 0 then x # y # ys else y # insertBy compare x ys)"

definition Array_sort :: "('a \<Rightarrow> 'a \<Rightarrow> int) \<Rightarrow> 'a list \<Rightarrow> 'a list" where
  "Array_sort compare xs = foldr (insertBy compare) xs []"

definition byCountDesc :: "bucket \<Rightarrow> bucket \<Rightarrow> int" where
  "byCountDesc a b = int (bucket_count b) - int (bucket_count a)"

definition topBuckets :: "8 word list \<Rightarrow> bucket list" where
  "topBuckets pixels = take 5 (Array_sort byCountDesc (Map_values (scan pixels 0 [])))"

definition encodeBucket :: "bucket \<Rightarrow> string" where
  "encodeBucket e =
     rgbToHex (real_of_int (bucket_r e)) (real_of_int (bucket_g e)) (real_of_int (bucket_b e))"

text \<open>The value \<open>sortedColors\<close> that \<open>extractColorsFromImage\<close> hands to
  \<open>setExtractedColors\<close>, as a function of the pixel buffer.\<close>

definition sortedColors :: "8 word list \<Rightarrow> string list" where
  "sortedColors pixels =
     filter (\<lambda>color. length color = 7) (map encodeBucket (topBuckets pixels))"

subsection \<open>The specification's wording\<close>

text \<open>The pattern \<open>^#[0-9a-f]{6}$\<close>.\<close>

definition isLowerHexChar :: "char \<Rightarrow> bool" where
  "isLowerHexChar c = (c \<in> set ''0123456789abcdef'')"

definition isHexColor :: "string \<Rightarrow> bool" where
  "isHexColor s =
     (case s of [] \<Rightarrow> False | c # cs \<Rightarrow> c = CHR ''#'' \<and> length cs = 6 \<and> list_all isLowerHexChar cs)"

text \<open>Rounding to the nearest integer, a tie going away from zero.\<close>

definition roundHalfAwayFromZero :: "real \<Rightarrow> int" where
  "roundHalfAwayFromZero x = (if 0 \<le> x then \<lfloor>x + 1 / 2\<rfloor> else \<lceil>x - 1 / 2\<rceil>)"

text \<open>The encoder as the specification words it: clamp to \<open>[0,255]\<close>, truncate to an
  integer, write two lower-case hexadecimal digits per channel.\<close>

definition clampChannel :: "real \<Rightarrow> real" where
  "clampChannel x = (if x < 0 then 0 else if 255 < x then 255 else x)"

definition truncateToInt :: "real \<Rightarrow> int" where
  "truncateToInt x = (if 0 \<le> x then \<lfloor>x\<rfloor> else \<lceil>x\<rceil>)"

definition hexDigit :: "nat \<Rightarrow> char" where
  "hexDigit d = ''0123456789abcdef'' ! d"

definition twoHexDigits :: "int \<Rightarrow> string" where
  "twoHexDigits x = [hexDigit (nat x div 16), hexDigit (nat x mod 16)]"

definition channelHex :: "real \<Rightarrow> string" where
  "channelHex x = twoHexDigits (truncateToInt (clampChannel x))"

definition encodeSpec :: "real \<Rightarrow> real \<Rightarrow> real \<Rightarrow> string" where
  "encodeSpec r g b = ''#'' @ channelHex r @ channelHex g @ channelHex b"

text \<open>The scale ratio \<open>min (M / W, M / H)\<close> and a side \<open>floor (side * r)\<close>, at least 1,
  in exact arithmetic.\<close>

definition exactRatio :: "nat \<Rightarrow> nat \<Rightarrow> real" where
  "exactRatio width height = min (300 / real width) (300 / real height)"

definition specSide :: "nat \<Rightarrow> nat \<Rightarrow> nat \<Rightarrow> nat" where
  "specSide side width height = max 1 (nat \<lfloor>real side * exactRatio width height\<rfloor>)"

text \<open>The values the quantiser can produce: the multiples of 20 from 0 to 260.\<close>

definition quantized :: "int \<Rightarrow> bool" where
  "quantized x = (0 \<le> x \<and> x \<le> 260 \<and> x mod 20 = 0)"

text \<open>The buckets as \<open>Array.from(colorMap.values())\<close> lists them, and sorted.\<close>

abbreviation bucketsInOrder :: "8 word list \<Rightarrow> bucket list" where
  "bucketsInOrder pixels \<equiv> Map_values (scan pixels 0 [])"

abbreviation rankedBuckets :: "8 word list \<Rightarrow> bucket list" where
  "rankedBuckets pixels \<equiv> Array_sort byCountDesc (bucketsInOrder pixels)"

text \<open>The bucket of the pixel \<open>(100,150,200)\<close> after \<open>c\<close> pixels were counted in it.\<close>

definition theBucket :: "nat \<Rightarrow> bucket" where
  "theBucket c = \<lparr>bucket_r = 100, bucket_g = 160, bucket_b = 200, bucket_count = c\<rparr>"

text \<open>The key under which the loop counts the pixel at byte index \<open>i\<close>, if it counts
  it; the keys of the counted pixels in the order of the scan; and a list's distinct
  elements in the order of their first occurrence.\<close>

definition keyAt :: "8 word list \<Rightarrow> nat \<Rightarrow> string option" where
  "keyAt pixels i =
     (if alphaBelow128 (byteAt pixels (i + 3)) then None
      else (case (byteAt pixels i, byteAt pixels (i + 1), byteAt pixels (i + 2)) of
          (Some rv, Some gv, Some bv) \<Rightarrow> Some (colorKey (grouped rv) (grouped gv) (grouped bv))
        | _ \<Rightarrow> None))"

definition countedKeys :: "8 word list \<Rightarrow> string list" where
  "countedKeys pixels = List.map_filter (keyAt pixels) (visited (length pixels) 0)"

primrec firstOccurrences :: "'a list \<Rightarrow> 'a list" where
  "firstOccurrences [] = []"
| "firstOccurrences (x # xs) = x # removeAll x (firstOccurrences xs)"

definition countOf :: "colorMap \<Rightarrow> string \<Rightarrow> nat" where
  "countOf m k = (case map_of m k of None \<Rightarrow> 0 | Some e \<Rightarrow> bucket_count e)"

text \<open>What the sampling loop keeps true of \<open>colorMap\<close>: keys are unique, every key is
  the key of the triple stored under it, every stored channel is a quantiser value, and
  every bucket has counted at least one pixel.\<close>

definition wellFormed :: "colorMap \<Rightarrow> bool" where
  "wellFormed m =
     (distinct (map fst m) \<and>
      list_all (\<lambda>(k, e). k = colorKey (bucket_r e) (bucket_g e) (bucket_b e) \<and>
         quantized (bucket_r e) \<and> quantized (bucket_g e) \<and> quantized (bucket_b e) \<and>
         0 < bucket_count e) m)"

section \<open>The encoder\<close>

lemma digit_table:
  "d < 16 \<Longrightarrow> lowerChar (digitChar d) = hexDigit d"
proof -
  have "\<forall>d\<in>set [0..<16]. lowerChar (digitChar d) = hexDigit d" by code_simp
  then show "d < 16 \<Longrightarrow> lowerChar (digitChar d) = hexDigit d" by simp
qed

lemma hexDigit_lower: "d < 16 \<Longrightarrow> isLowerHexChar (hexDigit d)"
proof -
  have "\<forall>d\<in>set [0..<16]. isLowerHexChar (hexDigit d)" by code_simp
  then show "d < 16 \<Longrightarrow> isLowerHexChar (hexDigit d)" by simp
qed

lemma hexDigit_inj: "a < 16 \<Longrightarrow> b < 16 \<Longrightarrow> hexDigit a = hexDigit b \<Longrightarrow> a = b"
proof -
  have "\<forall>a\<in>set [0..<16]. \<forall>b\<in>set [0..<16]. hexDigit a = hexDigit b \<longrightarrow> a = b" by code_simp
  then show "a < 16 \<Longrightarrow> b < 16 \<Longrightarrow> hexDigit a = hexDigit b \<Longrightarrow> a = b" by simp
qed

lemma toString16_byte:
  assumes "0 \<le> x" "x \<le> 255"
  shows "toString 16 x =
    (if x < 16 then [digitChar (nat x)] else [digitChar (nat x div 16), digitChar (nat x mod 16)])"
proof -
  have "nat x div 16 < 16" using assms by arith
  moreover have "nat x < 16 \<longleftrightarrow> x < 16" using assms by arith
  ultimately show ?thesis using assms
    by (simp add: toString_def natToString.simps [of 16 "nat x"] natToString.simps [of 16 "nat x div 16"])
qed

lemma hexPair_byte:
  assumes "0 \<le> x" "x \<le> 255"
  shows "hexPair x = twoHexDigits x"
proof -
  have d: "nat x div 16 < 16" "nat x mod 16 < 16" using assms by arith+
  have z: "CHR ''0'' = hexDigit 0" by (simp add: hexDigit_def)
  show ?thesis
  proof (cases "x < 16")
    case True
    then have "nat x < 16" by simp
    then show ?thesis using assms True
      by (simp add: hexPair_def toString16_byte toLowerCase_def twoHexDigits_def digit_table z)
  next
    case False
    then show ?thesis using assms d
      by (simp add: hexPair_def toString16_byte toLowerCase_def twoHexDigits_def digit_table)
  qed
qed

lemma clamp_floor:
  "max 0 (min 255 (Math_floor x)) = truncateToInt (clampChannel x)"
  by (auto simp: Math_floor_def truncateToInt_def clampChannel_def max_def min_def floor_le_iff le_floor_iff)

lemma clamp_range: "0 \<le> truncateToInt (clampChannel x) \<and> truncateToInt (clampChannel x) \<le> 255"
  by (auto simp: truncateToInt_def clampChannel_def floor_le_iff le_floor_iff)

lemma rgbToHex_encodeSpec: "rgbToHex r g b = encodeSpec r g b"
  by (simp add: rgbToHex_def encodeSpec_def channelHex_def clamp_floor hexPair_byte clamp_range)

lemma channelHex_shape: "length (channelHex x) = 2 \<and> list_all isLowerHexChar (channelHex x)"
proof -
  have "nat (truncateToInt (clampChannel x)) div 16 < 16" using clamp_range [of x] by arith
  then show ?thesis by (simp add: channelHex_def twoHexDigits_def hexDigit_lower)
qed

lemma rgbToHex_length: "length (rgbToHex r g b) = 7"
  by (simp add: rgbToHex_encodeSpec encodeSpec_def channelHex_shape)

lemma rgbToHex_isHexColor: "isHexColor (rgbToHex r g b)"
  by (simp add: rgbToHex_encodeSpec encodeSpec_def isHexColor_def channelHex_shape)

section \<open>Double arithmetic\<close>

lemma binade_bounds:
  assumes "0 < x"
  shows "2 powi binade x \<le> x \<and> x < 2 powi (binade x + 1)"
proof (cases "1 \<le> x")
  case True
  define n where "n = nat \<lfloor>x\<rfloor>"
  define L where "L = floorlog 2 n"
  have n: "0 < n" using True by (simp add: n_def)
  have fb: "2 ^ (L - 1) \<le> n" "n < 2 ^ L"
    using floorlog_bounds [of n 2] n by (simp_all add: L_def)
  have L: "0 < L" using fb(2) n by (cases L) simp_all
  have "real n = real_of_int \<lfloor>x\<rfloor>" using True by (simp add: n_def)
  then have nx: "real n \<le> x" "x < real n + 1" by linarith+
  have b: "binade x = int L - 1" using True by (simp add: binade_def L_def n_def)
  have "2 powi (int L - 1) = (2 :: real) ^ (L - 1)"
    using L by (simp add: power_int_def nat_diff_distrib')
  moreover have "2 powi (int L - 1 + 1) = (2 :: real) ^ L" by (simp add: power_int_def)
  moreover have "(2 :: real) ^ (L - 1) \<le> real n"
    using fb(1) by (metis of_nat_le_iff of_nat_numeral of_nat_power)
  moreover have "real n + 1 \<le> (2 :: real) ^ L"
  proof -
    from fb(2) have "n + 1 \<le> 2 ^ L" by simp
    then have "real (n + 1) \<le> real (2 ^ L)" by (simp only: of_nat_le_iff)
    then show ?thesis by simp
  qed
  ultimately show ?thesis using nx unfolding b by linarith
next
  case False
  define k where "k = \<lceil>1 / x\<rceil>"
  define n where "n = nat k - 1"
  define L where "L = floorlog 2 n"
  have "1 < 1 / x" using False assms by simp
  then have k: "2 \<le> k" unfolding k_def by linarith
  then have n: "0 < n" by (simp add: n_def)
  have fb: "2 ^ (L - 1) \<le> n" "n < 2 ^ L"
    using floorlog_bounds [of n 2] n by (simp_all add: L_def)
  have L: "0 < L" using fb(2) n by (cases L) simp_all
  have b: "binade x = - int L" using False by (simp add: binade_def L_def n_def k_def)
  have kn: "k = int n + 1" using k by (simp add: n_def)
  have "1 / x \<le> real_of_int k" by (simp add: k_def)
  moreover have "real_of_int k \<le> 2 ^ L"
  proof -
    from fb(2) have "n + 1 \<le> 2 ^ L" by simp
    then have "real (n + 1) \<le> real (2 ^ L)" by (simp only: of_nat_le_iff)
    then show ?thesis by (simp add: kn)
  qed
  ultimately have "1 / x \<le> 2 ^ L" by linarith
  then have lo: "1 / 2 ^ L \<le> x" using assms by (simp add: field_simps)
  have "int (2 ^ (L - 1)) < k" using fb(1) unfolding kn by linarith
  then have "real_of_int (int (2 ^ (L - 1))) < 1 / x" unfolding k_def by (simp only: less_ceiling_iff)
  then have "2 ^ (L - 1) < 1 / x" by simp
  then have hi: "x < 1 / 2 ^ (L - 1)" using assms by (simp add: field_simps)
  have "2 powi (- int L) = 1 / (2 :: real) ^ L"
    by (simp add: power_int_def field_simps)
  moreover have "2 powi (- int L + 1) = 1 / (2 :: real) ^ (L - 1)"
    using L by (cases L) (simp_all add: power_int_def field_simps)
  ultimately show ?thesis using lo hi unfolding b by simp
qed

lemma roundHalfEven_error: "\<bar>real_of_int (roundHalfEven y) - y\<bar> \<le> 1 / 2"
proof -
  have "real_of_int \<lfloor>y\<rfloor> \<le> y" "y < real_of_int \<lfloor>y\<rfloor> + 1" by linarith+
  then show ?thesis by (auto simp: roundHalfEven_def Let_def)
qed

lemma fl_error:
  assumes "0 < x"
  shows "\<bar>fl x - x\<bar> \<le> x / 2 ^ 53"
proof -
  define u :: real where "u = 2 powi (binade x - 52)"
  have u: "0 < u" by (simp add: u_def)
  have f: "fl x = real_of_int (roundHalfEven (x / u)) * u"
    using assms by (simp add: fl_def u_def Let_def)
  have "fl x - x = (real_of_int (roundHalfEven (x / u)) - x / u) * u"
    using u by (simp add: f field_simps)
  then have "\<bar>fl x - x\<bar> = \<bar>real_of_int (roundHalfEven (x / u)) - x / u\<bar> * u"
    using u by (simp add: abs_mult)
  also have "\<dots> \<le> 1 / 2 * u"
    using u roundHalfEven_error [of "x / u"] by (intro mult_right_mono) simp_all
  also have "1 / 2 * u = 2 powi binade x / 2 ^ 53"
  proof -
    have "(2 :: real) powi (binade x - 52) = 2 powi binade x / 2 ^ 52"
      by (simp add: power_int_diff)
    then show ?thesis by (simp add: u_def)
  qed
  also have "\<dots> \<le> x / 2 ^ 53"
    using binade_bounds [OF assms] by (simp add: divide_right_mono)
  finally show ?thesis .
qed

lemma fl_between:
  assumes "0 < x"
  shows "x - x / 2 ^ 53 \<le> fl x" and "fl x \<le> x + x / 2 ^ 53"
  using fl_error [OF assms] by linarith+

lemma roundHalfEven_of_int: "roundHalfEven (real_of_int z) = z"
  by (simp add: roundHalfEven_def)

lemma fl_exact:
  assumes "0 < a" "a < 2 ^ 53"
  shows "fl (real_of_int a * 2 powi b) = real_of_int a * 2 powi b"
proof -
  define x where "x = real_of_int a * 2 powi b"
  define e where "e = binade x"
  have x: "0 < x" using assms(1) by (simp add: x_def)
  have "real_of_int a < 2 ^ 53" using assms(2) by (metis of_int_less_iff of_int_numeral of_int_power)
  then have "x < 2 ^ 53 * 2 powi b" by (simp add: x_def)
  also have "\<dots> = 2 powi (53 + b)" by (simp add: power_int_add)
  finally have "2 powi e < (2 :: real) powi (53 + b)"
    using binade_bounds [OF x] by (simp add: e_def)
  then have "e < 53 + b"
    using power_int_increasing [of "53 + b" e "2 :: real"] by (cases "e < 53 + b") simp_all
  then obtain k where k: "b - (e - 52) = int k" using zero_le_imp_eq_int [of "b - (e - 52)"] by auto
  have "x / 2 powi (e - 52) = real_of_int a * 2 powi (b - (e - 52))"
    by (simp add: x_def power_int_diff)
  also have "\<dots> = real_of_int (a * 2 ^ k)" by (simp add: k)
  finally have "roundHalfEven (x / 2 powi (e - 52)) = a * 2 ^ k"
    by (simp only: roundHalfEven_of_int)
  then have "fl x = real_of_int (a * 2 ^ k) * 2 powi (e - 52)"
    using x by (simp add: fl_def e_def Let_def)
  also have "\<dots> = real_of_int a * 2 powi (int k + (e - 52))"
    by (simp add: power_int_add)
  also have "int k + (e - 52) = b" using k by simp
  finally show ?thesis by (simp only: x_def)
qed

text \<open>Flooring a number that lies within \<open>2^-43\<close> of a fraction \<open>m / D\<close> with \<open>D < 2^32\<close>.\<close>

lemma floor_near_fraction:
  assumes D: "0 < D" "D < 2 ^ 32" and c: "\<bar>c - real m / real D\<bar> < 1 / 2 ^ 43"
  shows "nat \<lfloor>c\<rfloor> = m div D \<or> (m mod D = 0 \<and> nat \<lfloor>c\<rfloor> = m div D - 1)"
proof -
  define q where "q = m div D"
  define t where "t = m mod D"
  have m: "m = q * D + t" and t: "t < D" using D by (simp_all add: q_def t_def)
  have rD: "0 < real D" using D by simp
  have "real m = real q * real D + real t" by (simp add: m)
  then have e: "real m / real D = real q + real t / real D"
    using rD by (simp add: field_simps)
  show ?thesis
  proof (cases "t = 0")
    case True
    with c e have "\<bar>c - real q\<bar> < 1 / 2 ^ 43" by simp
    then have b: "real q - 1 / 2 ^ 43 < c" "c < real q + 1 / 2 ^ 43"
      by (simp_all only: abs_less_iff) linarith+
    show ?thesis
    proof (cases "real q \<le> c")
      case True
      with b have "\<lfloor>c\<rfloor> = int q" by (intro floor_unique) simp_all
      then show ?thesis by (simp add: q_def)
    next
      case False
      show ?thesis
      proof (cases q)
        case 0
        with b have "- 1 < c" by simp
        with False 0 have "\<lfloor>c\<rfloor> = - 1" by (intro floor_unique) simp_all
        with 0 \<open>t = 0\<close> show ?thesis by (simp add: q_def t_def)
      next
        case (Suc p)
        with b False have "\<lfloor>c\<rfloor> = int p" by (intro floor_unique) simp_all
        with Suc \<open>t = 0\<close> show ?thesis by (simp add: q_def t_def)
      qed
    qed
  next
    case False
    have "real D < 2 ^ 32" using D(2) by (metis of_nat_less_iff of_nat_numeral of_nat_power)
    then have i: "1 / 2 ^ 32 < 1 / real D" using rD by (simp add: field_simps)
    have "1 \<le> t" "t + 1 \<le> D" using False t by simp_all
    then have "real 1 \<le> real t" "real (t + 1) \<le> real D" by (simp_all only: of_nat_le_iff)
    then have "1 \<le> real t" "real t \<le> real D - 1" by simp_all
    then have "1 / real D \<le> real t / real D" "real t / real D \<le> (real D - 1) / real D"
      using rD by (simp_all add: divide_right_mono)
    moreover have "(real D - 1) / real D = 1 - 1 / real D" using rD by (simp add: field_simps)
    ultimately have "real q + 1 / 2 ^ 32 < real m / real D" "real m / real D < real q + 1 - 1 / 2 ^ 32"
      using i unfolding e by linarith+
    moreover have "(1 :: real) / 2 ^ 43 < 1 / 2 ^ 32" "(0 :: real) < 1 / 2 ^ 32" by simp_all
    moreover from c have "c - real m / real D < 1 / 2 ^ 43" "real m / real D - c < 1 / 2 ^ 43"
      by (simp_all only: abs_less_iff minus_diff_eq)
    ultimately have "real q \<le> c" "c < real q + 1" by linarith+
    then have "\<lfloor>c\<rfloor> = int q" by (intro floor_unique) simp_all
    then show ?thesis by (simp add: q_def)
  qed
qed

section \<open>The sampling loop\<close>

lemma scan_fold: "scan pixels i m = fold (visit pixels) (visited (length pixels) i) m"
proof (induction pixels i m rule: scan.induct)
  case (1 pixels i m)
  show ?case
  proof (cases "i < length pixels")
    case True
    with 1 show ?thesis
      by (simp add: scan.simps [of pixels i] visited.simps [of "length pixels" i])
  next
    case False
    then show ?thesis
      by (simp add: scan.simps [of pixels i] visited.simps [of "length pixels" i])
  qed
qed

lemma visited_upt: "visited len i = map (\<lambda>k. i + 16 * k) [0..<(len + 15 - i) div 16]"
proof (induction len i rule: visited.induct)
  case (1 len i)
  show ?case
  proof (cases "i < len")
    case True
    define n where "n = (len + 15 - (i + 16)) div 16"
    have n: "(len + 15 - i) div 16 = Suc n"
      using True unfolding n_def by arith
    have "visited len i = i # map (\<lambda>k. i + 16 + 16 * k) [0..<n]"
      using 1 True by (simp add: visited.simps [of len i] n_def)
    also have "map (\<lambda>k. i + 16 + 16 * k) [0..<n] = map (\<lambda>k. i + 16 * k) (map Suc [0..<n])"
      by simp
    also have "i # \<dots> = map (\<lambda>k. i + 16 * k) [0..<Suc n]"
      by (simp only: map_Suc_upt upt_conv_Cons [of 0 "Suc n"]) simp
    finally show ?thesis by (simp only: n)
  next
    case False
    then have "(len + 15 - i) div 16 = 0" by arith
    with False show ?thesis by (simp add: visited.simps [of len i])
  qed
qed

lemma visited_pixels: "visited (4 * N) 0 = map (\<lambda>k. 16 * k) [0..<(N + 3) div 4]"
proof -
  have "(4 * N + 15 - 0) div 16 = (N + 3) div 4" by arith
  then show ?thesis by (simp add: visited_upt)
qed

lemma visited_in_bounds: "p \<in> set (visited (4 * N) 0) \<Longrightarrow> p + 3 < 4 * N"
proof -
  assume "p \<in> set (visited (4 * N) 0)"
  then obtain k where "k < (N + 3) div 4" "p = 16 * k" by (auto simp: visited_pixels)
  then show ?thesis by arith
qed

lemma ceil_quarter: "nat \<lceil>real N / 4\<rceil> = (N + 3) div 4"
proof -
  define q where "q = (N + 3) div 4"
  define t where "t = (N + 3) mod 4"
  have "N + 3 = 4 * q + t" and t: "t < 4" by (simp_all add: q_def t_def)
  then have "real (N + 3) = real (4 * q + t)" by simp
  then have N: "real N = 4 * real q + real t - 3" by simp
  have "real t < 4" using t by simp
  with N have "real_of_int (int q) - 1 < real N / 4" "real N / 4 \<le> real_of_int (int q)"
    by simp_all
  then have "\<lceil>real N / 4\<rceil> = int q" by (intro ceiling_unique)
  then show ?thesis by (simp add: q_def)
qed

section \<open>The quantiser\<close>

lemma roundHalfAway_div20: "roundHalfAwayFromZero (real n / 20) = int ((n + 10) div 20)"
proof -
  have "0 \<le> real n / 20" by simp
  moreover have "real n / 20 + 1 / 2 = real (n + 10) / real 20" by simp
  ultimately have "roundHalfAwayFromZero (real n / 20) = \<lfloor>real (n + 10) / real 20\<rfloor>"
    by (simp only: roundHalfAwayFromZero_def if_True)
  then show ?thesis by (simp only: floor_divide_of_nat_eq)
qed

lemma Math_round_fl_div20:
  assumes "n < 256"
  shows "Math_round (fl (real n / 20)) = int ((n + 10) div 20)"
proof (cases "n = 0")
  case True
  then show ?thesis by (simp add: fl_def Math_round_def)
next
  case False
  define y where "y = real n / 20"
  have y: "0 < y" "y \<le> 13" using False assms by (simp_all add: y_def)
  have s: "y + 1 / 2 = real (n + 10) / real 20" by (simp add: y_def)
  have "\<bar>fl y - y\<bar> \<le> y / 2 ^ 53" using y(1) by (rule fl_error)
  moreover have "y / 2 ^ 53 \<le> 13 / 2 ^ 53" using y(2) by (simp add: divide_right_mono)
  moreover have "(13 :: real) / 2 ^ 53 < 1 / 2 ^ 43" by simp
  ultimately have "\<bar>fl y + 1 / 2 - real (n + 10) / real 20\<bar> < 1 / 2 ^ 43"
    unfolding s [symmetric] by simp
  from floor_near_fraction [OF _ _ this]
  have c: "nat \<lfloor>fl y + 1 / 2\<rfloor> = (n + 10) div 20 \<or>
    (n + 10) mod 20 = 0 \<and> nat \<lfloor>fl y + 1 / 2\<rfloor> = (n + 10) div 20 - 1"
    by simp
  have "0 \<le> fl y" using fl_between(1) [OF y(1)] y(1) by simp
  then have nn: "0 \<le> \<lfloor>fl y + 1 / 2\<rfloor>" by simp
  have "nat \<lfloor>fl y + 1 / 2\<rfloor> = (n + 10) div 20"
  proof (cases "(n + 10) mod 20 = 0")
    case False
    with c show ?thesis by simp
  next
    case True
    define j where "j = (n + 10) div 20"
    from True div_mult_mod_eq [of "n + 10" 20] have n: "n + 10 = 20 * j" by (simp add: j_def)
    with False have j: "0 < j" by simp
    have "real (n + 10) = real (20 * j)" by (simp only: n)
    then have "y = real_of_int (2 * int j - 1) * 2 powi (- 1)"
      by (simp add: y_def power_int_minus field_simps)
    moreover have "0 < 2 * int j - 1" using j by linarith
    moreover have "j \<le> 13" using n assms by linarith
    then have "2 * int j - 1 < 2 ^ 53" by simp
    ultimately have "fl y = y" by (simp only: fl_exact)
    then have "fl y + 1 / 2 = real j" using s n by simp
    then show ?thesis by (simp add: j_def)
  qed
  with nn have "\<lfloor>fl y + 1 / 2\<rfloor> = int ((n + 10) div 20)" by linarith
  then show ?thesis by (simp only: Math_round_def y_def)
qed

lemma unat_byte: "unat (x :: 8 word) < 256"
  using unsigned_less [of x, where 'a = nat] by simp

lemma grouped_div [code]: "grouped x = int ((unat x + 10) div 20) * 20"
  by (simp only: grouped_def Math_round_fl_div20 [OF unat_byte])

lemma quantized_grouped: "quantized (grouped x)"
proof -
  have "(unat x + 10) div 20 \<le> 13" using unat_byte [of x] by arith
  then show ?thesis by (simp add: quantized_def grouped_div)
qed

section \<open>The colour map\<close>

lemma Map_has_iff: "Map_has m k \<longleftrightarrow> k \<in> fst ` set m"
  by (simp add: Map_has_def map_of_eq_None_iff)

lemma keys_Map_modify: "map fst (Map_modify f k m) = map fst m"
  by (induction m) auto

lemma length_Map_modify: "length (Map_modify f k m) = length m"
  by (induction m) auto

lemma list_all_Map_modify:
  "list_all P m \<Longrightarrow> (\<And>v. P (k, v) \<Longrightarrow> P (k, f v)) \<Longrightarrow> list_all P (Map_modify f k m)"
  by (induction m) auto

lemma wellFormed_Nil: "wellFormed []"
  by (simp add: wellFormed_def)

lemma wellFormed_modify:
  assumes "wellFormed m"
    and "\<And>e. bucket_r (f e) = bucket_r e \<and> bucket_g (f e) = bucket_g e \<and>
           bucket_b (f e) = bucket_b e \<and> 0 < bucket_count (f e)"
  shows "wellFormed (Map_modify f k m)"
  using assms unfolding wellFormed_def
  by (auto simp: keys_Map_modify intro!: list_all_Map_modify)

lemma wellFormed_new:
  assumes "wellFormed m" "\<not> Map_has m (colorKey x y z)" "quantized x" "quantized y" "quantized z"
  shows "wellFormed (Map_set m (colorKey x y z)
           \<lparr>bucket_r = x, bucket_g = y, bucket_b = z, bucket_count = c + 1\<rparr>)"
  using assms by (simp add: wellFormed_def Map_set_def Map_has_iff)

lemma wellFormed_visit:
  assumes "wellFormed m"
  shows "wellFormed (visit pixels i m)"
proof (cases "alphaBelow128 (byteAt pixels (i + 3))")
  case True
  with assms show ?thesis by (simp add: visit_def)
next
  case False
  show ?thesis
  proof (cases "\<exists>rv gv bv. byteAt pixels i = Some rv \<and> byteAt pixels (i + 1) = Some gv \<and>
      byteAt pixels (i + 2) = Some bv")
    case True
    then obtain rv gv bv where px: "byteAt pixels i = Some rv" "byteAt pixels (i + 1) = Some gv"
      "byteAt pixels (i + 2) = Some bv" by blast
    let ?k = "colorKey (grouped rv) (grouped gv) (grouped bv)"
    show ?thesis
    proof (cases "Map_has m ?k")
      case True
      have "wellFormed (Map_modify (\<lambda>existing. existing\<lparr>bucket_count := bucket_count existing + 1\<rparr>) ?k m)"
        by (rule wellFormed_modify [OF assms]) simp
      with True False px show ?thesis by (simp add: visit_def Let_def)
    next
      case absent: False
      have "wellFormed (Map_set m ?k \<lparr>bucket_r = grouped rv, bucket_g = grouped gv,
          bucket_b = grouped bv, bucket_count = 0 + 1\<rparr>)"
        by (rule wellFormed_new [OF assms absent]) (rule quantized_grouped)+
      with absent False px show ?thesis by (simp add: visit_def Let_def)
    qed
  next
    case none: False
    with False assms show ?thesis
      by (auto simp: visit_def Let_def split: option.splits)
  qed
qed

lemma wellFormed_fold: "wellFormed m \<Longrightarrow> wellFormed (fold (visit pixels) is m)"
  by (induction "is" arbitrary: m) (simp_all add: wellFormed_visit)

lemma wellFormed_scan: "wellFormed (scan pixels 0 [])"
  by (simp add: scan_fold wellFormed_fold wellFormed_Nil)

section \<open>The ranking\<close>

lemma insertBy_byCountDesc:
  "insertBy byCountDesc x ys = insort_key (\<lambda>e. - int (bucket_count e)) x ys"
  by (induction ys) (simp_all add: byCountDesc_def)

lemma Array_sort_byCountDesc:
  "Array_sort byCountDesc xs = sort_key (\<lambda>e. - int (bucket_count e)) xs"
  by (induction xs) (simp_all add: Array_sort_def insertBy_byCountDesc)

lemma Array_sort_descending:
  "sorted_wrt (\<lambda>a b. bucket_count b \<le> bucket_count a) (Array_sort byCountDesc xs)"
proof -
  have "sorted (map (\<lambda>e. - int (bucket_count e)) (Array_sort byCountDesc xs))"
    by (simp only: Array_sort_byCountDesc sorted_sort_key)
  then show ?thesis by (simp add: sorted_map)
qed

lemma Array_sort_stable:
  "filter (\<lambda>e. bucket_count e = c) (Array_sort byCountDesc xs) = filter (\<lambda>e. bucket_count e = c) xs"
  using sort_key_stable [of "\<lambda>e. - int (bucket_count e)" "- int c" xs]
  by (simp add: Array_sort_byCountDesc)

lemma set_Array_sort: "set (Array_sort byCountDesc xs) = set xs"
  by (simp add: Array_sort_byCountDesc)

lemma length_Array_sort: "length (Array_sort byCountDesc xs) = length xs"
  by (simp add: Array_sort_byCountDesc)

lemma distinct_Array_sort: "distinct (Array_sort byCountDesc xs) = distinct xs"
  by (simp add: Array_sort_byCountDesc)

section \<open>Distinct buckets encode to distinct strings\<close>

lemma twoHexDigits_inj:
  assumes "0 \<le> x" "x \<le> 255" "0 \<le> y" "y \<le> 255" "twoHexDigits x = twoHexDigits y"
  shows "x = y"
proof -
  have b: "nat x div 16 < 16" "nat x mod 16 < 16" "nat y div 16 < 16" "nat y mod 16 < 16"
    using assms(1-4) by arith+
  from assms(5) have "hexDigit (nat x div 16) = hexDigit (nat y div 16)"
    and "hexDigit (nat x mod 16) = hexDigit (nat y mod 16)"
    by (simp_all add: twoHexDigits_def)
  with b have "nat x div 16 = nat y div 16" and "nat x mod 16 = nat y mod 16"
    by (simp_all add: hexDigit_inj)
  then have "nat x div 16 * 16 + nat x mod 16 = nat y div 16 * 16 + nat y mod 16" by simp
  then have "nat x = nat y" by (simp only: div_mult_mod_eq)
  with assms(1,3) show ?thesis by simp
qed

lemma clamp_of_int:
  "truncateToInt (clampChannel (real_of_int x)) = max 0 (min 255 x)"
  by (simp add: truncateToInt_def clampChannel_def)

lemma quantized_cases:
  assumes "quantized x"
  shows "x \<le> 240 \<or> x = 260"
proof -
  from assms have "20 dvd x" and "x \<le> 260" by (simp_all add: quantized_def dvd_eq_mod_eq_0)
  then obtain k where "x = 20 * k" and "20 * k \<le> 260" by (auto elim: dvdE)
  then show ?thesis by arith
qed

lemma clamp_quantized_inj:
  assumes "quantized x" "quantized y" "max 0 (min 255 x) = max 0 (min 255 y)"
  shows "x = y"
proof -
  have "0 \<le> x" "0 \<le> y" using assms(1,2) by (simp_all add: quantized_def)
  moreover note quantized_cases [OF assms(1)] quantized_cases [OF assms(2)]
  ultimately show ?thesis using assms(3) by (elim disjE) simp_all
qed

lemma channelHex_quantized_inj:
  assumes "quantized x" "quantized y"
    and "channelHex (real_of_int x) = channelHex (real_of_int y)"
  shows "x = y"
proof -
  have "max 0 (min 255 x) = max 0 (min 255 y)"
    using assms(3) by (intro twoHexDigits_inj) (simp_all add: channelHex_def clamp_of_int)
  with assms(1,2) show ?thesis by (rule clamp_quantized_inj)
qed

lemma length_channelHex: "length (channelHex x) = 2"
  by (simp add: channelHex_shape)

lemma encodeBucket_inj:
  assumes "quantized (bucket_r d)" "quantized (bucket_g d)" "quantized (bucket_b d)"
    and "quantized (bucket_r e)" "quantized (bucket_g e)" "quantized (bucket_b e)"
    and "encodeBucket d = encodeBucket e"
  shows "bucket_r d = bucket_r e \<and> bucket_g d = bucket_g e \<and> bucket_b d = bucket_b e"
proof -
  from assms(7) have "channelHex (real_of_int (bucket_r d)) = channelHex (real_of_int (bucket_r e))"
    and "channelHex (real_of_int (bucket_g d)) = channelHex (real_of_int (bucket_g e))"
    and "channelHex (real_of_int (bucket_b d)) = channelHex (real_of_int (bucket_b e))"
    by (simp_all add: encodeBucket_def rgbToHex_encodeSpec encodeSpec_def length_channelHex)
  with assms(1-6) show ?thesis by (simp add: channelHex_quantized_inj)
qed

lemma wellFormed_entry:
  assumes "wellFormed m" "(k, e) \<in> set m"
  shows "k = colorKey (bucket_r e) (bucket_g e) (bucket_b e)"
    and "quantized (bucket_r e)" and "quantized (bucket_g e)" and "quantized (bucket_b e)"
    and "0 < bucket_count e"
  using assms by (auto simp: wellFormed_def list_all_iff)

lemma wellFormed_encode_inj:
  assumes "wellFormed m"
  shows "inj_on encodeBucket (set (Map_values m))"
proof (rule inj_onI)
  fix d e
  assume "d \<in> set (Map_values m)" "e \<in> set (Map_values m)" and eq: "encodeBucket d = encodeBucket e"
  then obtain j k where d: "(j, d) \<in> set m" and e: "(k, e) \<in> set m"
    by (auto simp: Map_values_def)
  have "bucket_r d = bucket_r e \<and> bucket_g d = bucket_g e \<and> bucket_b d = bucket_b e"
    using wellFormed_entry(2-4) [OF assms d] wellFormed_entry(2-4) [OF assms e] eq
    by (intro encodeBucket_inj)
  then have "j = k"
    using wellFormed_entry(1) [OF assms d] wellFormed_entry(1) [OF assms e] by simp
  moreover have "distinct (map fst m)" using assms by (simp add: wellFormed_def)
  ultimately show "d = e" using d e by (metis eq_key_imp_eq_value)
qed

lemma wellFormed_distinct_values:
  assumes "wellFormed m"
  shows "distinct (Map_values m)"
proof -
  have "inj_on snd (set m)"
  proof (rule inj_onI)
    fix p q assume mem: "p \<in> set m" "q \<in> set m" and eq: "snd p = snd q"
    from mem have p: "(fst p, snd p) \<in> set m" and q: "(fst q, snd q) \<in> set m" by simp_all
    have "fst p = colorKey (bucket_r (snd p)) (bucket_g (snd p)) (bucket_b (snd p))"
      and "fst q = colorKey (bucket_r (snd q)) (bucket_g (snd q)) (bucket_b (snd q))"
      by (rule wellFormed_entry(1) [OF assms p], rule wellFormed_entry(1) [OF assms q])
    with eq show "p = q" by (simp add: prod_eq_iff)
  qed
  moreover have "distinct m" using assms by (simp add: wellFormed_def distinct_map)
  ultimately show ?thesis by (simp add: Map_values_def distinct_map)
qed

lemma distinct_encoded:
  assumes "wellFormed m"
  shows "distinct (map encodeBucket (take n (Array_sort byCountDesc (Map_values m))))"
proof -
  let ?s = "Array_sort byCountDesc (Map_values m)"
  have "distinct (take n ?s)"
    by (simp add: distinct_Array_sort wellFormed_distinct_values [OF assms])
  moreover have "set (take n ?s) \<subseteq> set (Map_values m)"
    using set_take_subset [of n ?s] by (simp add: set_Array_sort)
  then have "inj_on encodeBucket (set (take n ?s))"
    by (rule inj_on_subset [OF wellFormed_encode_inj [OF assms]])
  ultimately show ?thesis by (simp add: distinct_map)
qed

section \<open>The pipeline\<close>

lemma length_topBuckets: "length (topBuckets pixels) = min 5 (length (Map_values (scan pixels 0 [])))"
  by (simp add: topBuckets_def length_Array_sort min.commute)

lemma sortedColors_unfiltered: "sortedColors pixels = map encodeBucket (topBuckets pixels)"
  by (simp add: sortedColors_def encodeBucket_def rgbToHex_length)

lemma topBuckets_quantized:
  assumes "e \<in> set (topBuckets pixels)"
  shows "quantized (bucket_r e) \<and> quantized (bucket_g e) \<and> quantized (bucket_b e)"
proof -
  from assms have "e \<in> set (Map_values (scan pixels 0 []))"
    using set_take_subset [of 5 "Array_sort byCountDesc (Map_values (scan pixels 0 []))"]
    by (auto simp: topBuckets_def set_Array_sort)
  then obtain k where "(k, e) \<in> set (scan pixels 0 [])" by (auto simp: Map_values_def)
  then show ?thesis using wellFormed_entry(2-4) [OF wellFormed_scan] by blast
qed

lemma example_buffer:
  "sortedColors [100, 150, 200, 255, 0, 0, 0, 0, 0, 0, 0, 0, 0, 0, 0, 0, 255, 255, 255, 255]
     = [''#64a0c8'', ''#ffffff'']"
  by code_simp

lemma example_buckets:
  "topBuckets [100, 150, 200, 255, 0, 0, 0, 0, 0, 0, 0, 0, 0, 0, 0, 0, 255, 255, 255, 255]
     = [\<lparr>bucket_r = 100, bucket_g = 160, bucket_b = 200, bucket_count = 1\<rparr>,
        \<lparr>bucket_r = 260, bucket_g = 260, bucket_b = 260, bucket_count = 1\<rparr>]"
  by code_simp

section \<open>A buffer of one repeated pixel\<close>

lemma nth_concat_replicate:
  "i < n * length xs \<Longrightarrow> concat (replicate n xs) ! i = xs ! (i mod length xs)"
proof (induction n arbitrary: i)
  case 0
  then show ?case by simp
next
  case (Suc n)
  show ?case
  proof (cases "i < length xs")
    case True
    then show ?thesis by (simp add: nth_append)
  next
    case False
    then have "i - length xs < n * length xs" using Suc.prems by simp
    then have "concat (replicate n xs) ! (i - length xs) = xs ! ((i - length xs) mod length xs)"
      by (rule Suc.IH)
    moreover have "(i - length xs) mod length xs = i mod length xs"
      using False by (simp add: le_mod_geq)
    ultimately show ?thesis using False by (simp add: nth_append)
  qed
qed

lemma length_concat_replicate: "length (concat (replicate n xs)) = n * length xs"
  by (induction n) simp_all

lemma byteAt_uniform:
  assumes "i < 4 * n" "length px = 4"
  shows "byteAt (concat (replicate n px)) i = Some (px ! (i mod 4))"
  using assms by (simp add: byteAt_def length_concat_replicate nth_concat_replicate)

lemma grouped_100_150_200: "grouped 100 = 100" "grouped 150 = 160" "grouped 200 = 200"
  by (simp_all add: grouped_div)

lemma grouped_255: "grouped 255 = 260"
  by (simp add: grouped_div)

lemma visit_surviving:
  assumes "byteAt pixels i = Some rv" "byteAt pixels (i + 1) = Some gv"
    "byteAt pixels (i + 2) = Some bv" "\<not> alphaBelow128 (byteAt pixels (i + 3))"
  shows "visit pixels i m =
    (if Map_has m (colorKey (grouped rv) (grouped gv) (grouped bv))
     then Map_modify (\<lambda>existing. existing\<lparr>bucket_count := bucket_count existing + 1\<rparr>)
       (colorKey (grouped rv) (grouped gv) (grouped bv)) m
     else Map_set m (colorKey (grouped rv) (grouped gv) (grouped bv))
       \<lparr>bucket_r = grouped rv, bucket_g = grouped gv, bucket_b = grouped bv, bucket_count = 1\<rparr>)"
  using assms by (simp add: visit_def Let_def)

lemma visit_uniform:
  assumes "p \<in> set (visited (4 * n) 0)"
    and "m = [] \<or> (\<exists>c. m = [(colorKey 100 160 200, theBucket c)])"
  shows "\<exists>c. visit (concat (replicate n [100, 150, 200, 255])) p m
           = [(colorKey 100 160 200, theBucket c)]"
proof -
  let ?px = "[100, 150, 200, 255] :: 8 word list"
  from assms(1) obtain k where p: "p = 16 * k" by (auto simp: visited_pixels)
  have b: "p + 3 < 4 * n" using assms(1) by (rule visited_in_bounds)
  have m4: "p mod 4 = 0" "(p + 1) mod 4 = 1" "(p + 2) mod 4 = 2" "(p + 3) mod 4 = 3"
    unfolding p by presburger+
  have "byteAt (concat (replicate n ?px)) j = Some (?px ! (j mod 4))" if "j \<le> p + 3" for j
    by (rule byteAt_uniform) (use b that in simp_all)
  from this [of p] this [of "p + 1"] this [of "p + 2"] this [of "p + 3"]
  have rd: "byteAt (concat (replicate n ?px)) p = Some 100"
    "byteAt (concat (replicate n ?px)) (p + 1) = Some 150"
    "byteAt (concat (replicate n ?px)) (p + 2) = Some 200"
    "byteAt (concat (replicate n ?px)) (p + 3) = Some 255"
    unfolding m4 by simp_all
  have v: "visit (concat (replicate n ?px)) p m =
    (if Map_has m (colorKey 100 160 200)
     then Map_modify (\<lambda>existing. existing\<lparr>bucket_count := bucket_count existing + 1\<rparr>)
       (colorKey 100 160 200) m
     else Map_set m (colorKey 100 160 200) (theBucket 1))"
    using visit_surviving [OF rd(1-3), of m]
    by (simp add: rd(4) alphaBelow128_def grouped_100_150_200 theBucket_def)
  from assms(2) show ?thesis
  proof
    assume "m = []"
    with v have "visit (concat (replicate n ?px)) p m = [(colorKey 100 160 200, theBucket 1)]"
      by (simp add: Map_has_def Map_set_def)
    then show ?thesis ..
  next
    assume "\<exists>c. m = [(colorKey 100 160 200, theBucket c)]"
    then obtain c where "m = [(colorKey 100 160 200, theBucket c)]" ..
    with v have "visit (concat (replicate n ?px)) p m = [(colorKey 100 160 200, theBucket (c + 1))]"
      by (simp add: Map_has_def theBucket_def)
    then show ?thesis ..
  qed
qed

lemma fold_uniform:
  assumes "set ps \<subseteq> set (visited (4 * n) 0)" "ps \<noteq> []"
    and "m = [] \<or> (\<exists>c. m = [(colorKey 100 160 200, theBucket c)])"
  shows "\<exists>c. fold (visit (concat (replicate n [100, 150, 200, 255]))) ps m
           = [(colorKey 100 160 200, theBucket c)]"
  using assms
proof (induction ps arbitrary: m)
  case Nil
  then show ?case by simp
next
  case (Cons p ps)
  from Cons.prems have "p \<in> set (visited (4 * n) 0)" by simp
  from visit_uniform [OF this Cons.prems(3)]
  obtain c where v: "visit (concat (replicate n [100, 150, 200, 255])) p m
      = [(colorKey 100 160 200, theBucket c)]" ..
  show ?case
  proof (cases "ps = []")
    case True
    with v show ?thesis by auto
  next
    case False
    moreover from Cons.prems have "set ps \<subseteq> set (visited (4 * n) 0)" by simp
    ultimately show ?thesis using Cons.IH [of "visit (concat (replicate n [100, 150, 200, 255])) p m"] v
      by auto
  qed
qed

lemma scan_uniform:
  assumes "0 < n"
  shows "\<exists>c. scan (concat (replicate n [100, 150, 200, 255])) 0 []
           = [(colorKey 100 160 200, theBucket c)]"
proof -
  have "visited (4 * n) 0 \<noteq> []" using assms by (simp add: visited.simps [of "4 * n" 0])
  then have "\<exists>c. fold (visit (concat (replicate n [100, 150, 200, 255]))) (visited (4 * n) 0) []
      = [(colorKey 100 160 200, theBucket c)]"
    by (intro fold_uniform) simp_all
  moreover have "length (concat (replicate n [100, 150, 200, 255 :: 8 word])) = 4 * n"
    by (simp add: length_concat_replicate)
  ultimately show ?thesis by (simp only: scan_fold)
qed

lemma rgbToHex_100_160_200: "rgbToHex 100 160 200 = ''#64a0c8''"
  by code_simp





lemma example_ranking:
  "bucketsInOrder
     [100, 150, 200, 255, 0, 0, 0, 0, 0, 0, 0, 0, 0, 0, 0, 0,
      255, 255, 255, 255, 0, 0, 0, 0, 0, 0, 0, 0, 0, 0, 0, 0,
      255, 255, 255, 255]
   = [\<lparr>bucket_r = 100, bucket_g = 160, bucket_b = 200, bucket_count = 1\<rparr>,
      \<lparr>bucket_r = 260, bucket_g = 260, bucket_b = 260, bucket_count = 2\<rparr>]"
  "topBuckets
     [100, 150, 200, 255, 0, 0, 0, 0, 0, 0, 0, 0, 0, 0, 0, 0,
      255, 255, 255, 255, 0, 0, 0, 0, 0, 0, 0, 0, 0, 0, 0, 0,
      255, 255, 255, 255]
   = [\<lparr>bucket_r = 260, bucket_g = 260, bucket_b = 260, bucket_count = 2\<rparr>,
      \<lparr>bucket_r = 100, bucket_g = 160, bucket_b = 200, bucket_count = 1\<rparr>]"
  by code_simp+

lemma topBuckets_take: "topBuckets pixels = take 5 (rankedBuckets pixels)"
  by (simp add: topBuckets_def)

lemma topBuckets_descending:
  "sorted_wrt (\<lambda>a b. bucket_count b \<le> bucket_count a) (topBuckets pixels)"
  unfolding topBuckets_def by (intro sorted_wrt_take Array_sort_descending)

lemma topBuckets_dominance:
  assumes "i < length (topBuckets pixels)" "j < length (topBuckets pixels)"
    and "bucket_count (topBuckets pixels ! j) < bucket_count (topBuckets pixels ! i)"
  shows "i < j"
proof (rule ccontr)
  assume "\<not> i < j"
  with assms(3) have "j < i" by (cases "i = j") auto
  with topBuckets_descending [of pixels] assms(1)
  have "bucket_count (topBuckets pixels ! i) \<le> bucket_count (topBuckets pixels ! j)"
    by (simp add: sorted_wrt_iff_nth_less)
  with assms(3) show False by simp
qed

lemma topBuckets_head_max:
  assumes "e \<in> set (bucketsInOrder pixels)"
  shows "topBuckets pixels \<noteq> [] \<and> bucket_count e \<le> bucket_count (hd (topBuckets pixels))"
proof -
  let ?s = "rankedBuckets pixels"
  from assms have mem: "e \<in> set ?s" by (simp add: set_Array_sort)
  then obtain x xs where s: "?s = x # xs" by (cases ?s) auto
  have "sorted_wrt (\<lambda>a b. bucket_count b \<le> bucket_count a) (x # xs)"
    using Array_sort_descending [of "bucketsInOrder pixels"] by (simp only: s)
  with mem have "bucket_count e \<le> bucket_count x" unfolding s by auto
  then show ?thesis by (simp add: topBuckets_def s)
qed

section \<open>The order and the counts of the buckets\<close>

lemma map_of_Map_modify:
  "map_of (Map_modify f k m) k' = (if k' = k then map_option f (map_of m k) else map_of m k')"
  by (induction m) auto

lemma visit_not_counted: "keyAt pixels i = None \<Longrightarrow> visit pixels i m = m"
  by (auto simp: keyAt_def visit_def Let_def split: if_splits option.splits)

lemma visit_counted:
  assumes "keyAt pixels i = Some k"
  shows "map fst (visit pixels i m) = (if k \<in> set (map fst m) then map fst m else map fst m @ [k])"
    and "countOf (visit pixels i m) k' = countOf m k' + (if k' = k then 1 else 0)"
proof -
  from assms obtain rv gv bv where px: "byteAt pixels i = Some rv" "byteAt pixels (i + 1) = Some gv"
    "byteAt pixels (i + 2) = Some bv" "\<not> alphaBelow128 (byteAt pixels (i + 3))"
    and k: "k = colorKey (grouped rv) (grouped gv) (grouped bv)"
    by (auto simp: keyAt_def split: if_splits option.splits)
  note v = visit_surviving [OF px, of m, folded k]
  show "map fst (visit pixels i m) = (if k \<in> set (map fst m) then map fst m else map fst m @ [k])"
    by (simp add: v Map_has_iff keys_Map_modify Map_set_def)
  show "countOf (visit pixels i m) k' = countOf m k' + (if k' = k then 1 else 0)"
  proof (cases "Map_has m k")
    case True
    then obtain e where "map_of m k = Some e" by (auto simp: Map_has_def)
    with True show ?thesis by (simp add: v countOf_def map_of_Map_modify)
  next
    case False
    then have "map_of m k = None" by (simp add: Map_has_def)
    with False show ?thesis
      by (simp add: v countOf_def Map_set_def map_add_def split: option.splits)
  qed
qed

lemma keys_fold_visit:
  "map fst (fold (visit pixels) ps m) =
     map fst m @ filter (\<lambda>k. k \<notin> set (map fst m)) (firstOccurrences (List.map_filter (keyAt pixels) ps))"
proof (induction ps arbitrary: m)
  case Nil
  then show ?case by (simp add:)
next
  case (Cons p ps)
  show ?case
  proof (cases "keyAt pixels p")
    case None
    then show ?thesis by (simp add: Cons.IH visit_not_counted)
  next
    case (Some k)
    let ?rest = "firstOccurrences (List.map_filter (keyAt pixels) ps)"
    show ?thesis
    proof (cases "k \<in> set (map fst m)")
      case True
      then have "filter (\<lambda>k. k \<notin> set (map fst m)) (removeAll k ?rest)
          = filter (\<lambda>k. k \<notin> set (map fst m)) ?rest"
        by (auto simp: removeAll_filter_not_eq intro: filter_cong)
      with True Some show ?thesis
        by (simp add: Cons.IH visit_counted(1) [OF Some])
    next
      case False
      have "filter (\<lambda>x. x \<noteq> k \<and> x \<notin> set (map fst m)) ?rest
          = filter (\<lambda>k. k \<notin> set (map fst m)) (removeAll k ?rest)"
        by (auto simp: removeAll_filter_not_eq intro: filter_cong)
      with False Some show ?thesis
        by (simp add: Cons.IH visit_counted(1) [OF Some])
    qed
  qed
qed

lemma count_fold_visit:
  "countOf (fold (visit pixels) ps m) k =
     countOf m k + count_list (List.map_filter (keyAt pixels) ps) k"
proof (induction ps arbitrary: m)
  case Nil
  then show ?case by (simp add:)
next
  case (Cons p ps)
  show ?case
  proof (cases "keyAt pixels p")
    case None
    then show ?thesis by (simp add: Cons.IH visit_not_counted)
  next
    case (Some k')
    then show ?thesis by (simp add: Cons.IH visit_counted(2) [OF Some])
  qed
qed

lemma keys_scan: "map fst (scan pixels 0 []) = firstOccurrences (countedKeys pixels)"
  by (simp add: scan_fold keys_fold_visit countedKeys_def)

lemma count_scan:
  assumes "(k, e) \<in> set (scan pixels 0 [])"
  shows "bucket_count e = count_list (countedKeys pixels) k"
proof -
  have "distinct (map fst (scan pixels 0 []))"
    using wellFormed_scan [of pixels] by (simp add: wellFormed_def)
  with assms have "map_of (scan pixels 0 []) k = Some e" by simp
  then have "countOf (scan pixels 0 []) k = bucket_count e" by (simp add: countOf_def)
  then show ?thesis
    using count_fold_visit [of pixels "visited (length pixels) 0" "[]" k]
    by (simp add: scan_fold countedKeys_def countOf_def)
qed

lemma scan_keys_and_counts:
  "map (\<lambda>(k, e). (k, bucket_count e)) (scan pixels 0 [])
     = map (\<lambda>k. (k, count_list (countedKeys pixels) k)) (firstOccurrences (countedKeys pixels))"
proof -
  have "map (\<lambda>(k, e). (k, bucket_count e)) (scan pixels 0 [])
      = map (\<lambda>(k, e). (k, count_list (countedKeys pixels) k)) (scan pixels 0 [])"
    by (rule map_cong) (auto simp: count_scan)
  also have "\<dots> = map (\<lambda>k. (k, count_list (countedKeys pixels) k)) (map fst (scan pixels 0 []))"
    by (simp add: case_prod_unfold comp_def)
  finally show ?thesis by (simp only: keys_scan)
qed




section \<open>The canvas size in double arithmetic\<close>

lemma exactRatio_pos: "0 < W \<Longrightarrow> 0 < H \<Longrightarrow> 0 < exactRatio W H"
  by (simp add: exactRatio_def)

lemma ratio_between:
  assumes "0 < W" "0 < H"
  shows "exactRatio W H - exactRatio W H / 2 ^ 53 \<le> ratio W H"
    and "ratio W H \<le> exactRatio W H + exactRatio W H / 2 ^ 53"
proof -
  define a where "a = 300 / real W"
  define b where "b = 300 / real H"
  have ab: "0 < a" "0 < b" using assms by (simp_all add: a_def b_def)
  note fa = fl_between [OF ab(1)] and fb = fl_between [OF ab(2)]
  have r: "exactRatio W H = min a b" "ratio W H = min (fl a) (fl b)"
    by (simp_all add: exactRatio_def ratio_def a_def b_def)
  have mono: "a - a / 2 ^ 53 \<le> b - b / 2 ^ 53" if "a \<le> b" for a b :: real
    using that by simp
  show "exactRatio W H - exactRatio W H / 2 ^ 53 \<le> ratio W H"
  proof (cases "a \<le> b")
    case True
    with fa(1) fb(1) mono [OF True] show ?thesis unfolding r by (simp add: min_def)
  next
    case False
    then have "b \<le> a" by simp
    with fa(1) fb(1) mono [OF this] False show ?thesis unfolding r by (simp add: min_def)
  qed
  show "ratio W H \<le> exactRatio W H + exactRatio W H / 2 ^ 53"
  proof (cases "a \<le> b")
    case True
    have "min (fl a) (fl b) \<le> fl a" by simp
    with fa(2) True show ?thesis unfolding r by (simp add: min_def)
  next
    case False
    have "min (fl a) (fl b) \<le> fl b" by simp
    with fb(2) False show ?thesis unfolding r by (simp add: min_def)
  qed
qed

lemma ratio_pos:
  assumes "0 < W" "0 < H"
  shows "0 < ratio W H"
proof -
  have "0 < exactRatio W H - exactRatio W H / 2 ^ 53"
    using exactRatio_pos [OF assms] by simp
  with ratio_between(1) [OF assms] show ?thesis by simp
qed

text \<open>The double product of a side with the ratio, against the exact product.\<close>

lemma side_error:
  assumes "0 < W" "0 < H" "0 < S" and e300: "real S * exactRatio W H \<le> 300"
  shows "\<bar>fl (real S * ratio W H) - real S * exactRatio W H\<bar> < 1 / 2 ^ 43"
proof -
  define e where "e = real S * exactRatio W H"
  define x where "x = real S * ratio W H"
  define u :: real where "u = 1 / 2 ^ 53"
  have u: "0 < u" "u < 1" by (simp_all add: u_def)
  have S: "0 < real S" using assms(3) by simp
  have x: "0 < x" using S ratio_pos [OF assms(1,2)] by (simp add: x_def)
  have e0: "0 < e" using S exactRatio_pos [OF assms(1,2)] by (simp add: e_def)
  have e3: "e \<le> 300" using e300 by (simp add: e_def)
  have "real S * (exactRatio W H - exactRatio W H / 2 ^ 53) \<le> real S * ratio W H"
    using S ratio_between(1) [OF assms(1,2)] by (intro mult_left_mono) simp_all
  then have lo: "e * (1 - u) \<le> x" by (simp add: e_def x_def u_def algebra_simps)
  have "real S * ratio W H \<le> real S * (exactRatio W H + exactRatio W H / 2 ^ 53)"
    using S ratio_between(2) [OF assms(1,2)] by (intro mult_left_mono) simp_all
  then have hi: "x \<le> e * (1 + u)" by (simp add: e_def x_def u_def algebra_simps)
  have clo: "x * (1 - u) \<le> fl x" and chi: "fl x \<le> x * (1 + u)"
    using fl_between [OF x] by (simp_all add: u_def algebra_simps)
  have "e * (1 - u) * (1 - u) \<le> x * (1 - u)"
    using lo u by (intro mult_right_mono) simp_all
  with clo have l2: "e * (1 - u) * (1 - u) \<le> fl x" by simp
  have "x * (1 + u) \<le> e * (1 + u) * (1 + u)"
    using hi u by (intro mult_right_mono) simp_all
  with chi have h2: "fl x \<le> e * (1 + u) * (1 + u)" by simp
  have "e * (2 * u + u * u) \<le> 300 * (2 * u + u * u)"
    using e3 u by (intro mult_right_mono) simp_all
  moreover have "e * (1 + u) * (1 + u) = e + e * (2 * u + u * u)" by (simp add: algebra_simps)
  moreover have "300 * (2 * u + u * u) < 1 / 2 ^ 43" by (simp add: u_def)
  ultimately have up: "fl x - e < 1 / 2 ^ 43" using h2 by simp
  have "e * (2 * u) \<le> 300 * (2 * u)"
    using e3 u by (intro mult_right_mono) simp_all
  moreover have "e * (1 - u) * (1 - u) = e - e * (2 * u) + e * (u * u)" by (simp add: algebra_simps)
  moreover have "0 \<le> e * (u * u)" using e0 u by simp
  moreover have "300 * (2 * u) < 1 / 2 ^ 43" by (simp add: u_def)
  ultimately have dn: "e - fl x < 1 / 2 ^ 43" using l2 by simp
  from up dn have "\<bar>fl x - e\<bar> < 1 / 2 ^ 43" by (simp only: abs_less_iff) simp
  then show ?thesis by (simp only: e_def x_def)
qed

lemma exact_side:
  assumes "0 < W" "0 < H"
  shows "real W * exactRatio W H = real (300 * W) / real (max W H)"
    and "real H * exactRatio W H = real (300 * H) / real (max W H)"
proof -
  have "exactRatio W H = 300 / real (max W H)"
    using assms by (auto simp: exactRatio_def min_def max_def field_simps)
  then show "real W * exactRatio W H = real (300 * W) / real (max W H)"
    and "real H * exactRatio W H = real (300 * H) / real (max W H)"
    by simp_all
qed

lemma exact_side_le:
  assumes "0 < W" "0 < H"
  shows "real W * exactRatio W H \<le> 300" and "real H * exactRatio W H \<le> 300"
proof -
  have "exactRatio W H \<le> 300 / real W" "exactRatio W H \<le> 300 / real H"
    by (simp_all add: exactRatio_def)
  then have "real W * exactRatio W H \<le> real W * (300 / real W)"
    and "real H * exactRatio W H \<le> real H * (300 / real H)"
    by (simp_all only: mult_left_mono of_nat_0_le_iff)
  then show "real W * exactRatio W H \<le> 300" and "real H * exactRatio W H \<le> 300"
    using assms by simp_all
qed

lemma floor_exact_side:
  assumes "0 < D"
  shows "nat \<lfloor>real m / real D\<rfloor> = m div D"
    and "m mod D = 0 \<Longrightarrow> real_of_int \<lfloor>real m / real D\<rfloor> = real m / real D"
proof -
  show "nat \<lfloor>real m / real D\<rfloor> = m div D" by (simp add: floor_divide_of_nat_eq)
  assume "m mod D = 0"
  with div_mult_mod_eq [of m D] have "m div D * D = m" by simp
  then have "real (m div D * D) = real m" by (simp only:)
  then have "real m = real (m div D) * real D" by simp
  then have "real m / real D = real (m div D)" using assms by simp
  then show "real_of_int \<lfloor>real m / real D\<rfloor> = real m / real D" by simp
qed

lemma canvas_side:
  assumes "0 < W" "0 < H" "W < 2 ^ 32" "H < 2 ^ 32" "0 < S"
    and e: "real S * exactRatio W H = real (300 * S) / real (max W H)"
    and b: "real S * exactRatio W H \<le> 300"
  shows "nat \<lfloor>fl (real S * ratio W H)\<rfloor> = nat \<lfloor>real S * exactRatio W H\<rfloor> \<or>
    real_of_int \<lfloor>real S * exactRatio W H\<rfloor> = real S * exactRatio W H \<and>
    nat \<lfloor>fl (real S * ratio W H)\<rfloor> = nat \<lfloor>real S * exactRatio W H\<rfloor> - 1"
proof -
  have D: "0 < max W H" "max W H < 2 ^ 32" using assms(1-4) by simp_all
  have "\<bar>fl (real S * ratio W H) - real (300 * S) / real (max W H)\<bar> < 1 / 2 ^ 43"
    using side_error [OF assms(1,2,5) b] by (simp only: e)
  from floor_near_fraction [OF D this] show ?thesis
    unfolding e using floor_exact_side [OF D(1), of "300 * S"] by auto
qed

lemma canvas_side_le:
  assumes "0 < W" "0 < H" "0 < S" and b: "real S * exactRatio W H \<le> 300"
  shows "nat \<lfloor>fl (real S * ratio W H)\<rfloor> \<le> 300"
proof -
  have "fl (real S * ratio W H) - real S * exactRatio W H < 1 / 2 ^ 43"
    using side_error [OF assms] by (simp only: abs_less_iff)
  moreover have "(1 :: real) / 2 ^ 43 < 1" by simp
  ultimately have "fl (real S * ratio W H) < 301" using b by linarith
  then have "\<lfloor>fl (real S * ratio W H)\<rfloor> < 301" by (simp add: floor_less_iff)
  then have "\<lfloor>fl (real S * ratio W H)\<rfloor> \<le> int 300" by simp
  then show ?thesis by (simp only: nat_le_iff)
qed

lemma ratio_uncapped:
  assumes "0 < W" "0 < H" "W < 300" "H < 300"
  shows "1 < ratio W H"
proof -
  have "W \<le> 299" "H \<le> 299" using assms(3,4) by simp_all
  then have "real W \<le> real 299" "real H \<le> real 299" by (simp_all only: of_nat_le_iff)
  moreover have "0 < real W" "0 < real H" using assms(1,2) by simp_all
  ultimately have "300 / 299 \<le> 300 / real W" "300 / 299 \<le> 300 / real H"
    by (intro divide_left_mono; simp)+
  then have "300 / 299 \<le> exactRatio W H" by (simp add: exactRatio_def)
  moreover have "exactRatio W H - exactRatio W H / 2 ^ 53 = exactRatio W H * (1 - 1 / 2 ^ 53)"
    by (simp add: algebra_simps)
  moreover have "300 / 299 * (1 - 1 / 2 ^ 53) \<le> exactRatio W H * (1 - 1 / 2 ^ 53)"
    using calculation(1) by (intro mult_right_mono) simp_all
  moreover have "(1 :: real) < 300 / 299 * (1 - 1 / 2 ^ 53)" by simp
  ultimately show ?thesis using ratio_between(1) [OF assms(1,2)] by linarith
qed

lemma canvas_281: "canvasWidth 281 281 = 299" "canvasHeight 281 281 = 299"
  by code_simp+

lemma exact_281: "nat \<lfloor>real 281 * exactRatio 281 281\<rfloor> = 300"
  "real_of_int \<lfloor>real 281 * exactRatio 281 281\<rfloor> = real 281 * exactRatio 281 281"
  by (simp_all add: exactRatio_def)

lemma canvas_side_ge1:
  assumes d: "c = nat \<lfloor>e\<rfloor> \<or> real_of_int \<lfloor>e\<rfloor> = e \<and> c = nat \<lfloor>e\<rfloor> - 1"
    and e: "1 < (e :: real)"
  shows "1 \<le> (c :: nat)"
proof -
  from e have f: "1 \<le> \<lfloor>e\<rfloor>" by linarith
  from d show ?thesis
  proof
    assume "c = nat \<lfloor>e\<rfloor>"
    with f show ?thesis by linarith
  next
    assume b: "real_of_int \<lfloor>e\<rfloor> = e \<and> c = nat \<lfloor>e\<rfloor> - 1"
    then have "real_of_int \<lfloor>e\<rfloor> = e" ..
    with e have "real_of_int 1 < real_of_int \<lfloor>e\<rfloor>" by (simp only: of_int_1)
    then have "1 < \<lfloor>e\<rfloor>" by (simp only: of_int_less_iff)
    with b show ?thesis by linarith
  qed
qed

lemma exact_side_gt1:
  assumes "0 < W" "0 < H" "max W H < 300 * min W H"
  shows "1 < real W * exactRatio W H" and "1 < real H * exactRatio W H"
proof -
  have D: "0 < real (max W H)" using assms(1) by simp
  have "max W H < 300 * W" "max W H < 300 * H" using assms(3) by (simp_all add: min_def split: if_splits)
  then have "real (max W H) < real (300 * W)" "real (max W H) < real (300 * H)"
    by (simp_all only: of_nat_less_iff)
  then have "1 < real (300 * W) / real (max W H)" "1 < real (300 * H) / real (max W H)"
    using D by (simp_all only: less_divide_eq_1_pos)
  then show "1 < real W * exactRatio W H" and "1 < real H * exactRatio W H"
    by (simp_all only: exact_side [OF assms(1,2)])
qed

section \<open>The properties of the specification\<close>

text \<open>
  C1.  Whatever the pixel buffer, \<open>sortedColors\<close> holds at most five strings, and each
  matches \<open>^#[0-9a-f]{6}$\<close>.  The loop reads the buffer's own length, never the
  declared width and height, so the statement needs no premise on them.
\<close>

theorem extraction_output_shape:
  "length (sortedColors pixels) \<le> 5 \<and> (\<forall>s \<in> set (sortedColors pixels). isHexColor s)"
proof
  show "length (sortedColors pixels) \<le> 5"
    by (simp add: sortedColors_unfiltered length_topBuckets)
  show "\<forall>s \<in> set (sortedColors pixels). isHexColor s"
    by (auto simp: sortedColors_unfiltered encodeBucket_def rgbToHex_isHexColor)
qed

theorem extraction_output_shape_witness:
  "sortedColors [100, 150, 200, 255, 0, 0, 0, 0, 0, 0, 0, 0, 0, 0, 0, 0, 255, 255, 255, 255]
     = [''#64a0c8'', ''#ffffff''] \<and>
   length [''#64a0c8'', ''#ffffff''] \<le> (5 :: nat) \<and>
   isHexColor ''#64a0c8'' \<and> isHexColor ''#ffffff''"
  using extraction_output_shape
    [of "[100, 150, 200, 255, 0, 0, 0, 0, 0, 0, 0, 0, 0, 0, 0, 0, 255, 255, 255, 255]"]
  unfolding example_buffer by simp

text \<open>
  C2.  The quantiser maps a byte \<open>x\<close> to \<open>round (x / 20) * 20\<close>, a tie rounding away from
  zero: the double division and \<open>Math.round\<close> give, for every byte, what the exact
  quotient rounded that way gives; 150 goes to 160 and 255 to 260.  The bucket stores the
  quantised channels as they are, 260 included; only \<open>rgbToHex\<close> clamps, so the white
  pixel is stored as \<open>(260,260,260)\<close> and encoded as \<open>#ffffff\<close>.
\<close>

theorem quantizer_rounds_half_away:
  "grouped x = roundHalfAwayFromZero (real (unat x) / 20) * 20 \<and>
   grouped 150 = 160 \<and> grouped 255 = 260 \<and>
   bucketsInOrder [x, y, z, 255] =
     [\<lparr>bucket_r = grouped x, bucket_g = grouped y, bucket_b = grouped z, bucket_count = 1\<rparr>] \<and>
   bucketsInOrder [255, 255, 255, 255] =
     [\<lparr>bucket_r = 260, bucket_g = 260, bucket_b = 260, bucket_count = 1\<rparr>] \<and>
   sortedColors [255, 255, 255, 255] = [''#ffffff'']"
proof (intro conjI)
  show "grouped x = roundHalfAwayFromZero (real (unat x) / 20) * 20"
    by (simp only: grouped_div roundHalfAway_div20)
  show "grouped 150 = 160" by (rule grouped_100_150_200)
  show "grouped 255 = 260" by (rule grouped_255)
  have rd: "byteAt [a, b, c, 255] 0 = Some a" "byteAt [a, b, c, 255] (0 + 1) = Some b"
    "byteAt [a, b, c, 255] (0 + 2) = Some c" "\<not> alphaBelow128 (byteAt [a, b, c, 255] (0 + 3))"
    for a b c :: "8 word"
    by (simp_all add: byteAt_def alphaBelow128_def)
  have "scan [a, b, c, 255] 0 [] = visit [a, b, c, 255] 0 []" for a b c :: "8 word"
    by (simp add: scan.simps [of _ 0] scan.simps [of _ 16])
  then show g: "bucketsInOrder [a, b, c, 255] =
     [\<lparr>bucket_r = grouped a, bucket_g = grouped b, bucket_b = grouped c, bucket_count = 1\<rparr>]"
    for a b c
    by (simp add: visit_surviving [OF rd] Map_has_def Map_set_def Map_values_def)
  from g [of 255 255 255] show "bucketsInOrder [255, 255, 255, 255] =
     [\<lparr>bucket_r = 260, bucket_g = 260, bucket_b = 260, bucket_count = 1\<rparr>]"
    by (simp only: grouped_255)
  show "sortedColors [255, 255, 255, 255] = [''#ffffff'']" by code_simp
qed

text \<open>
  C3.  The map lists the buckets in the order in which the scan first counted a pixel
  under each key, and each bucket's count is the number of counted pixels with its key.
  The buckets are sorted by descending count; buckets of equal count keep the order in
  which the map lists them; the result is cut to its first five, and is the whole sorted
  list when there are at most five buckets.  In the output a bucket of strictly larger
  count stands before one of smaller count, and the first bucket has the largest count
  of all.
\<close>

theorem ranking_by_count:
  "map (\<lambda>(k, e). (k, bucket_count e)) (scan pixels 0 [])
     = map (\<lambda>k. (k, count_list (countedKeys pixels) k)) (firstOccurrences (countedKeys pixels)) \<and>
   sorted_wrt (\<lambda>a b. bucket_count b \<le> bucket_count a) (rankedBuckets pixels) \<and>
   (\<forall>c. filter (\<lambda>e. bucket_count e = c) (rankedBuckets pixels)
        = filter (\<lambda>e. bucket_count e = c) (bucketsInOrder pixels)) \<and>
   topBuckets pixels = take 5 (rankedBuckets pixels) \<and>
   length (topBuckets pixels) = min 5 (length (bucketsInOrder pixels)) \<and>
   (length (bucketsInOrder pixels) \<le> 5 \<longrightarrow>
      topBuckets pixels = rankedBuckets pixels \<and> set (topBuckets pixels) = set (bucketsInOrder pixels)) \<and>
   (\<forall>i j. i < length (topBuckets pixels) \<and> j < length (topBuckets pixels) \<and>
      bucket_count (topBuckets pixels ! j) < bucket_count (topBuckets pixels ! i) \<longrightarrow> i < j) \<and>
   (\<forall>e \<in> set (bucketsInOrder pixels).
      topBuckets pixels \<noteq> [] \<and> bucket_count e \<le> bucket_count (hd (topBuckets pixels)))"
proof (intro conjI allI impI ballI)
  show "map (\<lambda>(k, e). (k, bucket_count e)) (scan pixels 0 [])
     = map (\<lambda>k. (k, count_list (countedKeys pixels) k)) (firstOccurrences (countedKeys pixels))"
    by (rule scan_keys_and_counts)
  show "sorted_wrt (\<lambda>a b. bucket_count b \<le> bucket_count a) (rankedBuckets pixels)"
    by (rule Array_sort_descending)
  show "filter (\<lambda>e. bucket_count e = c) (rankedBuckets pixels)
      = filter (\<lambda>e. bucket_count e = c) (bucketsInOrder pixels)" for c
    by (rule Array_sort_stable)
  show "topBuckets pixels = take 5 (rankedBuckets pixels)" by (rule topBuckets_take)
  show "length (topBuckets pixels) = min 5 (length (bucketsInOrder pixels))"
    by (rule length_topBuckets)
  show "topBuckets pixels = rankedBuckets pixels" if "length (bucketsInOrder pixels) \<le> 5"
    using that by (simp add: topBuckets_def length_Array_sort)
  then show "set (topBuckets pixels) = set (bucketsInOrder pixels)"
    if "length (bucketsInOrder pixels) \<le> 5"
    using that by (simp add: set_Array_sort)
  show "i < j" if "i < length (topBuckets pixels) \<and> j < length (topBuckets pixels) \<and>
      bucket_count (topBuckets pixels ! j) < bucket_count (topBuckets pixels ! i)" for i j
    using that by (blast intro: topBuckets_dominance)
  show "topBuckets pixels \<noteq> []" if "e \<in> set (bucketsInOrder pixels)" for e
    using topBuckets_head_max [OF that] by simp
  show "bucket_count e \<le> bucket_count (hd (topBuckets pixels))"
    if "e \<in> set (bucketsInOrder pixels)" for e
    using topBuckets_head_max [OF that] by simp
qed

theorem ranking_by_count_witness:
  "bucketsInOrder
     [100, 150, 200, 255, 0, 0, 0, 0, 0, 0, 0, 0, 0, 0, 0, 0,
      255, 255, 255, 255, 0, 0, 0, 0, 0, 0, 0, 0, 0, 0, 0, 0,
      255, 255, 255, 255]
     = [\<lparr>bucket_r = 100, bucket_g = 160, bucket_b = 200, bucket_count = 1\<rparr>,
        \<lparr>bucket_r = 260, bucket_g = 260, bucket_b = 260, bucket_count = 2\<rparr>] \<and>
   topBuckets
     [100, 150, 200, 255, 0, 0, 0, 0, 0, 0, 0, 0, 0, 0, 0, 0,
      255, 255, 255, 255, 0, 0, 0, 0, 0, 0, 0, 0, 0, 0, 0, 0,
      255, 255, 255, 255]
     = [\<lparr>bucket_r = 260, bucket_g = 260, bucket_b = 260, bucket_count = 2\<rparr>,
        \<lparr>bucket_r = 100, bucket_g = 160, bucket_b = 200, bucket_count = 1\<rparr>] \<and>
   length [\<lparr>bucket_r = 100, bucket_g = 160, bucket_b = 200, bucket_count = 1\<rparr>,
        \<lparr>bucket_r = 260, bucket_g = 260, bucket_b = 260, bucket_count = 2\<rparr>] \<le> 5 \<and>
   bucket_count ([\<lparr>bucket_r = 260, bucket_g = 260, bucket_b = 260, bucket_count = 2\<rparr>,
        \<lparr>bucket_r = 100, bucket_g = 160, bucket_b = 200, bucket_count = 1\<rparr>] ! 1)
     < bucket_count ([\<lparr>bucket_r = 260, bucket_g = 260, bucket_b = 260, bucket_count = 2\<rparr>,
        \<lparr>bucket_r = 100, bucket_g = 160, bucket_b = 200, bucket_count = 1\<rparr>] ! 0) \<and>
   (0 :: nat) < 1 \<and>
   bucket_count \<lparr>bucket_r = 100, bucket_g = 160, bucket_b = 200, bucket_count = 1\<rparr>
     \<le> bucket_count (hd [\<lparr>bucket_r = 260, bucket_g = 260, bucket_b = 260, bucket_count = 2\<rparr>,
        \<lparr>bucket_r = 100, bucket_g = 160, bucket_b = 200, bucket_count = 1\<rparr>])"
proof -
  note t = ranking_by_count
    [of "[100, 150, 200, 255, 0, 0, 0, 0, 0, 0, 0, 0, 0, 0, 0, 0,
      255, 255, 255, 255, 0, 0, 0, 0, 0, 0, 0, 0, 0, 0, 0, 0,
      255, 255, 255, 255]",
      unfolded example_ranking]
  from t have "\<forall>i j. i < length [\<lparr>bucket_r = 260, bucket_g = 260, bucket_b = 260, bucket_count = 2\<rparr>,
        \<lparr>bucket_r = 100, bucket_g = 160, bucket_b = 200, bucket_count = 1\<rparr>] \<and>
      j < length [\<lparr>bucket_r = 260, bucket_g = 260, bucket_b = 260, bucket_count = 2\<rparr>,
        \<lparr>bucket_r = 100, bucket_g = 160, bucket_b = 200, bucket_count = 1\<rparr>] \<and>
      bucket_count ([\<lparr>bucket_r = 260, bucket_g = 260, bucket_b = 260, bucket_count = 2\<rparr>,
        \<lparr>bucket_r = 100, bucket_g = 160, bucket_b = 200, bucket_count = 1\<rparr>] ! j)
        < bucket_count ([\<lparr>bucket_r = 260, bucket_g = 260, bucket_b = 260, bucket_count = 2\<rparr>,
        \<lparr>bucket_r = 100, bucket_g = 160, bucket_b = 200, bucket_count = 1\<rparr>] ! i) \<longrightarrow> i < j"
    by blast
  then have d: "(0 :: nat) < 1" by simp
  from t have "\<forall>e \<in> set [\<lparr>bucket_r = 100, bucket_g = 160, bucket_b = 200, bucket_count = 1\<rparr>,
        \<lparr>bucket_r = 260, bucket_g = 260, bucket_b = 260, bucket_count = 2\<rparr>].
      [\<lparr>bucket_r = 260, bucket_g = 260, bucket_b = 260, bucket_count = 2\<rparr>,
        \<lparr>bucket_r = 100, bucket_g = 160, bucket_b = 200, bucket_count = 1\<rparr>] \<noteq> [] \<and>
      bucket_count e \<le> bucket_count (hd [\<lparr>bucket_r = 260, bucket_g = 260, bucket_b = 260, bucket_count = 2\<rparr>,
        \<lparr>bucket_r = 100, bucket_g = 160, bucket_b = 200, bucket_count = 1\<rparr>])"
    by blast
  then have h: "bucket_count \<lparr>bucket_r = 100, bucket_g = 160, bucket_b = 200, bucket_count = 1\<rparr>
     \<le> bucket_count (hd [\<lparr>bucket_r = 260, bucket_g = 260, bucket_b = 260, bucket_count = 2\<rparr>,
        \<lparr>bucket_r = 100, bucket_g = 160, bucket_b = 200, bucket_count = 1\<rparr>])"
    by simp
  show ?thesis
    by (intro conjI, rule example_ranking(1), rule example_ranking(2), simp, simp, rule d, rule h)
qed

text \<open>
  C4.  For all channel values, inside \<open>0..255\<close> or not, \<open>rgbToHex\<close> computes what the
  specification words: each channel clamped to \<open>[0,255]\<close>, truncated to an integer and
  written as two lower-case hexadecimal digits after \<open>#\<close>, seven characters in all.
\<close>

theorem encoder_clamps_and_formats:
  "rgbToHex r g b = encodeSpec r g b \<and> length (rgbToHex r g b) = 7 \<and> isHexColor (rgbToHex r g b)"
  by (simp add: rgbToHex_encodeSpec [symmetric] rgbToHex_length rgbToHex_isHexColor)

text \<open>
  C5.  The code computes the ratio \<open>min (300 / W, 300 / H)\<close> in double arithmetic and does
  not cap it at 1: for an image smaller than 300 by 300 it exceeds 1.  Each canvas side is
  the integer part of the double product of the image side with the ratio.  For an image
  with sides below \<open>2^32\<close> whose longer side is less than 300 times the shorter, that is
  the floor of the exact product, or one less, which can happen only when the exact
  product is an integer; it is at least 1 and at most 300.
\<close>

theorem canvas_size_in_double_arithmetic:
  assumes "0 < W" "0 < H" "W < 2 ^ 32" "H < 2 ^ 32" "max W H < 300 * min W H"
  shows "\<bar>ratio W H - exactRatio W H\<bar> \<le> exactRatio W H / 2 ^ 53 \<and>
    (W < 300 \<and> H < 300 \<longrightarrow> 1 < ratio W H) \<and>
    (canvasWidth W H = nat \<lfloor>real W * exactRatio W H\<rfloor> \<or>
       real_of_int \<lfloor>real W * exactRatio W H\<rfloor> = real W * exactRatio W H \<and>
       canvasWidth W H = nat \<lfloor>real W * exactRatio W H\<rfloor> - 1) \<and>
    (canvasHeight W H = nat \<lfloor>real H * exactRatio W H\<rfloor> \<or>
       real_of_int \<lfloor>real H * exactRatio W H\<rfloor> = real H * exactRatio W H \<and>
       canvasHeight W H = nat \<lfloor>real H * exactRatio W H\<rfloor> - 1) \<and>
    1 \<le> canvasWidth W H \<and> canvasWidth W H \<le> 300 \<and>
    1 \<le> canvasHeight W H \<and> canvasHeight W H \<le> 300"
proof -
  have w: "canvasWidth W H = nat \<lfloor>real W * exactRatio W H\<rfloor> \<or>
       real_of_int \<lfloor>real W * exactRatio W H\<rfloor> = real W * exactRatio W H \<and>
       canvasWidth W H = nat \<lfloor>real W * exactRatio W H\<rfloor> - 1"
    unfolding canvasWidth_def unsignedLong_def
    by (rule canvas_side [OF assms(1-4) assms(1) exact_side(1) exact_side_le(1)]) (rule assms)+
  have h: "canvasHeight W H = nat \<lfloor>real H * exactRatio W H\<rfloor> \<or>
       real_of_int \<lfloor>real H * exactRatio W H\<rfloor> = real H * exactRatio W H \<and>
       canvasHeight W H = nat \<lfloor>real H * exactRatio W H\<rfloor> - 1"
    unfolding canvasHeight_def unsignedLong_def
    by (rule canvas_side [OF assms(1-4) assms(2) exact_side(2) exact_side_le(2)]) (rule assms)+
  show ?thesis
  proof (intro conjI impI)
    show "\<bar>ratio W H - exactRatio W H\<bar> \<le> exactRatio W H / 2 ^ 53"
      using ratio_between [OF assms(1,2)] by (simp only: abs_le_iff) linarith
    show "1 < ratio W H" if "W < 300 \<and> H < 300"
      using that ratio_uncapped [OF assms(1,2)] by simp
    show "canvasWidth W H = nat \<lfloor>real W * exactRatio W H\<rfloor> \<or>
       real_of_int \<lfloor>real W * exactRatio W H\<rfloor> = real W * exactRatio W H \<and>
       canvasWidth W H = nat \<lfloor>real W * exactRatio W H\<rfloor> - 1"
      by (rule w)
    show "canvasHeight W H = nat \<lfloor>real H * exactRatio W H\<rfloor> \<or>
       real_of_int \<lfloor>real H * exactRatio W H\<rfloor> = real H * exactRatio W H \<and>
       canvasHeight W H = nat \<lfloor>real H * exactRatio W H\<rfloor> - 1"
      by (rule h)
    show "1 \<le> canvasWidth W H"
      by (rule canvas_side_ge1 [OF w exact_side_gt1(1) [OF assms(1,2,5)]])
    show "1 \<le> canvasHeight W H"
      by (rule canvas_side_ge1 [OF h exact_side_gt1(2) [OF assms(1,2,5)]])
    show "canvasWidth W H \<le> 300"
      unfolding canvasWidth_def unsignedLong_def
      by (rule canvas_side_le [OF assms(1,2,1) exact_side_le(1)]) (rule assms)+
    show "canvasHeight W H \<le> 300"
      unfolding canvasHeight_def unsignedLong_def
      by (rule canvas_side_le [OF assms(1,2,2) exact_side_le(2)]) (rule assms)+
  qed
qed

theorem canvas_size_in_double_arithmetic_witness:
  "(0 :: nat) < 281 \<and> (281 :: nat) < 2 ^ 32 \<and> max 281 281 < 300 * min 281 (281 :: nat) \<and>
   (281 :: nat) < 300 \<and> 1 < ratio 281 281 \<and>
   real_of_int \<lfloor>real 281 * exactRatio 281 281\<rfloor> = real 281 * exactRatio 281 281 \<and>
   canvasWidth 281 281 = nat \<lfloor>real 281 * exactRatio 281 281\<rfloor> - 1 \<and>
   canvasHeight 281 281 = nat \<lfloor>real 281 * exactRatio 281 281\<rfloor> - 1 \<and>
   1 \<le> canvasWidth 281 281 \<and> canvasWidth 281 281 \<le> 300 \<and>
   1 \<le> canvasHeight 281 281 \<and> canvasHeight 281 281 \<le> 300"
proof -
  have h: "(0 :: nat) < 281" "(281 :: nat) < 2 ^ 32" "max 281 281 < 300 * min 281 (281 :: nat)"
    "(281 :: nat) < 300" by simp_all
  note t = canvas_size_in_double_arithmetic [OF h(1) h(1) h(2) h(2) h(3)]
  from t h(4) have r: "1 < ratio 281 281" by blast
  from t have w: "1 \<le> canvasWidth 281 281" "canvasWidth 281 281 \<le> 300"
    "1 \<le> canvasHeight 281 281" "canvasHeight 281 281 \<le> 300" by blast+
  have c: "canvasWidth 281 281 = nat \<lfloor>real 281 * exactRatio 281 281\<rfloor> - 1"
    "canvasHeight 281 281 = nat \<lfloor>real 281 * exactRatio 281 281\<rfloor> - 1"
    unfolding canvas_281 exact_281(1) by simp_all
  show ?thesis
    by (intro conjI, rule h(1), rule h(2), rule h(3), rule h(4), rule r, rule exact_281(2),
        rule c(1), rule c(2), rule w(1), rule w(2), rule w(3), rule w(4))
qed

text \<open>
  The sides are not always the floor of the exact product: an image of 281 by 281 gets a
  canvas of 299 by 299, where the floor of the exact product is 300.
\<close>

theorem canvas_size_counterexample:
  "canvasWidth 281 281 = 299 \<and> specSide 281 281 281 = 300"
proof -
  have b: "specSide 281 281 281 = 300" by (simp add: specSide_def exactRatio_def)
  show ?thesis by (intro conjI, rule canvas_281(1), rule b)
qed




text \<open>
  C7.  A buffer made of one or more copies of the pixel \<open>(100,150,200,255)\<close> yields the
  single string \<open>#64a0c8\<close>, the encoding of the quantised triple \<open>(100,160,200)\<close>.
\<close>

theorem single_color_buffer:
  "0 < n \<Longrightarrow> sortedColors (concat (replicate n [100, 150, 200, 255])) = [''#64a0c8'']"
proof -
  assume "0 < n"
  from scan_uniform [OF this] obtain c where
    "scan (concat (replicate n [100, 150, 200, 255])) 0 [] = [(colorKey 100 160 200, theBucket c)]" ..
  then show ?thesis
    by (simp add: sortedColors_def topBuckets_def Map_values_def Array_sort_def encodeBucket_def
        theBucket_def rgbToHex_100_160_200)
qed

theorem single_color_buffer_witness:
  "(0 :: nat) < 5 \<and>
   concat (replicate 5 [100, 150, 200, 255 :: 8 word]) =
     [100, 150, 200, 255, 100, 150, 200, 255, 100, 150, 200, 255, 100, 150, 200, 255,
      100, 150, 200, 255] \<and>
   sortedColors [100, 150, 200, 255, 100, 150, 200, 255, 100, 150, 200, 255, 100, 150, 200, 255,
      100, 150, 200, 255] = [''#64a0c8'']"
proof -
  have e: "concat (replicate 5 [100, 150, 200, 255 :: 8 word]) =
     [100, 150, 200, 255, 100, 150, 200, 255, 100, 150, 200, 255, 100, 150, 200, 255,
      100, 150, 200, 255]" by code_simp
  have "(0 :: nat) < 5" by simp
  from this single_color_buffer [OF this] show ?thesis unfolding e by simp
qed

text \<open>
  C8.  On a buffer of \<open>N\<close> pixels (\<open>4 * N\<close> bytes) the loop runs its body at the byte
  indices \<open>0, 16, 32, \<dots>\<close>, at \<open>ceil (N / 4)\<close> of them, and the four bytes it reads at
  each lie inside the buffer.
\<close>

theorem sampler_visits_every_fourth_pixel:
  "visited (4 * N) 0 = map (\<lambda>k. 16 * k) [0..<(N + 3) div 4] \<and>
   length (visited (4 * N) 0) = nat \<lceil>real N / 4\<rceil> \<and>
   (\<forall>p \<in> set (visited (4 * N) 0). p + 3 < 4 * N) \<and>
   (length pixels = 4 * N \<longrightarrow> scan pixels 0 m = fold (visit pixels) (visited (4 * N) 0) m)"
proof (intro conjI impI ballI)
  show "visited (4 * N) 0 = map (\<lambda>k. 16 * k) [0..<(N + 3) div 4]" by (rule visited_pixels)
  then show "length (visited (4 * N) 0) = nat \<lceil>real N / 4\<rceil>" by (simp add: ceil_quarter)
  show "p + 3 < 4 * N" if "p \<in> set (visited (4 * N) 0)" for p using that by (rule visited_in_bounds)
  show "scan pixels 0 m = fold (visit pixels) (visited (4 * N) 0) m" if "length pixels = 4 * N"
    using that scan_fold [of pixels 0 m] by simp
qed

theorem sampler_visits_every_fourth_pixel_witness:
  "visited (4 * 5) 0 = [0, 16] \<and>
   length [0 :: nat, 16] = nat \<lceil>real 5 / 4\<rceil> \<and>
   (0 :: nat) + 3 < 4 * 5 \<and> (16 :: nat) + 3 < 4 * 5 \<and>
   length [100, 150, 200, 255, 0, 0, 0, 0, 0, 0, 0, 0, 0, 0, 0, 0, 255, 255, 255, 255] = 4 * 5 \<and>
   scan [100, 150, 200, 255, 0, 0, 0, 0, 0, 0, 0, 0, 0, 0, 0, 0, 255, 255, 255, 255] 0 []
     = fold (visit [100, 150, 200, 255, 0, 0, 0, 0, 0, 0, 0, 0, 0, 0, 0, 0, 255, 255, 255, 255]) [0, 16] []"
proof -
  have v: "visited (4 * 5) 0 = [0, 16]" by code_simp
  have l: "length [100, 150, 200, 255, 0, 0, 0, 0, 0, 0, 0, 0, 0, 0, 0, 0, 255, 255, 255, 255] = 4 * 5"
    by simp
  note t = sampler_visits_every_fourth_pixel
    [of 5 "[100, 150, 200, 255, 0, 0, 0, 0, 0, 0, 0, 0, 0, 0, 0, 0, 255, 255, 255, 255]" "[]",
      unfolded v]
  from t l have s: "scan [100, 150, 200, 255, 0, 0, 0, 0, 0, 0, 0, 0, 0, 0, 0, 0, 255, 255, 255, 255] 0 []
     = fold (visit [100, 150, 200, 255, 0, 0, 0, 0, 0, 0, 0, 0, 0, 0, 0, 0, 255, 255, 255, 255]) [0, 16] []"
    by blast
  show ?thesis
    by (intro conjI, rule v, simp, simp, simp, rule l, rule s)
qed

text \<open>
  C9.  The encoding of a triple of quantiser values has length seven, every bucket that
  reaches the encoder holds such a triple, and so the filter on the length keeps the
  whole list.
\<close>

theorem length_filter_removes_nothing:
  "(quantized r \<and> quantized g \<and> quantized b \<longrightarrow>
      length (rgbToHex (real_of_int r) (real_of_int g) (real_of_int b)) = 7) \<and>
   (\<forall>e \<in> set (topBuckets pixels).
      quantized (bucket_r e) \<and> quantized (bucket_g e) \<and> quantized (bucket_b e) \<and>
      length (encodeBucket e) = 7) \<and>
   sortedColors pixels = map encodeBucket (topBuckets pixels)"
  by (simp add: rgbToHex_length topBuckets_quantized sortedColors_unfiltered encodeBucket_def)

theorem length_filter_removes_nothing_witness:
  "quantized 260 \<and> quantized 0 \<and> quantized 20 \<and>
   length (rgbToHex (real_of_int 260) (real_of_int 0) (real_of_int 20)) = 7 \<and>
   topBuckets [100, 150, 200, 255, 0, 0, 0, 0, 0, 0, 0, 0, 0, 0, 0, 0, 255, 255, 255, 255]
     = [\<lparr>bucket_r = 100, bucket_g = 160, bucket_b = 200, bucket_count = 1\<rparr>,
        \<lparr>bucket_r = 260, bucket_g = 260, bucket_b = 260, bucket_count = 1\<rparr>] \<and>
   quantized 100 \<and> quantized 160 \<and> quantized 200 \<and>
   length (encodeBucket \<lparr>bucket_r = 100, bucket_g = 160, bucket_b = 200, bucket_count = 1\<rparr>) = 7 \<and>
   length (encodeBucket \<lparr>bucket_r = 260, bucket_g = 260, bucket_b = 260, bucket_count = 1\<rparr>) = 7 \<and>
   sortedColors [100, 150, 200, 255, 0, 0, 0, 0, 0, 0, 0, 0, 0, 0, 0, 0, 255, 255, 255, 255]
     = map encodeBucket
        [\<lparr>bucket_r = 100, bucket_g = 160, bucket_b = 200, bucket_count = 1\<rparr>,
         \<lparr>bucket_r = 260, bucket_g = 260, bucket_b = 260, bucket_count = 1\<rparr>]"
proof -
  have q: "quantized 260" "quantized 0" "quantized 20" "quantized 100" "quantized 160"
    "quantized 200"
    by (simp_all add: quantized_def)
  note t = length_filter_removes_nothing
    [of 260 0 20 "[100, 150, 200, 255, 0, 0, 0, 0, 0, 0, 0, 0, 0, 0, 0, 0, 255, 255, 255, 255]",
      unfolded example_buckets]
  from t q have a: "length (rgbToHex (real_of_int 260) (real_of_int 0) (real_of_int 20)) = 7"
    by blast
  from t have "\<forall>e \<in> set [\<lparr>bucket_r = 100, bucket_g = 160, bucket_b = 200, bucket_count = 1\<rparr>,
        \<lparr>bucket_r = 260, bucket_g = 260, bucket_b = 260, bucket_count = 1\<rparr>].
      quantized (bucket_r e) \<and> quantized (bucket_g e) \<and> quantized (bucket_b e) \<and>
      length (encodeBucket e) = 7"
    by blast
  then have b: "length (encodeBucket \<lparr>bucket_r = 100, bucket_g = 160, bucket_b = 200, bucket_count = 1\<rparr>) = 7"
    "length (encodeBucket \<lparr>bucket_r = 260, bucket_g = 260, bucket_b = 260, bucket_count = 1\<rparr>) = 7"
    by simp_all
  from t have c: "sortedColors [100, 150, 200, 255, 0, 0, 0, 0, 0, 0, 0, 0, 0, 0, 0, 0, 255, 255, 255, 255]
     = map encodeBucket
        [\<lparr>bucket_r = 100, bucket_g = 160, bucket_b = 200, bucket_count = 1\<rparr>,
         \<lparr>bucket_r = 260, bucket_g = 260, bucket_b = 260, bucket_count = 1\<rparr>]"
    by blast
  show ?thesis
    by (intro conjI, rule q(1), rule q(2), rule q(3), rule a, rule example_buckets, rule q(4),
        rule q(5), rule q(6), rule b(1), rule b(2), rule c)
qed

text \<open>
  C10.  The extracted colours are pairwise distinct: clamping to \<open>[0,255]\<close> is injective
  on the quantiser values, so buckets with different keys encode to different strings.
\<close>

theorem extracted_colors_distinct:
  "distinct (sortedColors pixels) \<and>
   (quantized x \<and> quantized y \<and> max 0 (min 255 x) = max 0 (min 255 y) \<longrightarrow> x = y) \<and>
   (quantized (bucket_r d) \<and> quantized (bucket_g d) \<and> quantized (bucket_b d) \<and>
    quantized (bucket_r e) \<and> quantized (bucket_g e) \<and> quantized (bucket_b e) \<and>
    colorKey (bucket_r d) (bucket_g d) (bucket_b d) \<noteq> colorKey (bucket_r e) (bucket_g e) (bucket_b e)
      \<longrightarrow> encodeBucket d \<noteq> encodeBucket e)"
proof (intro conjI impI)
  show "distinct (sortedColors pixels)"
    unfolding sortedColors_def topBuckets_def
    by (intro distinct_filter distinct_encoded wellFormed_scan)
next
  assume "quantized x \<and> quantized y \<and> max 0 (min 255 x) = max 0 (min 255 y)"
  then show "x = y" by (blast intro: clamp_quantized_inj)
next
  assume a: "quantized (bucket_r d) \<and> quantized (bucket_g d) \<and> quantized (bucket_b d) \<and>
    quantized (bucket_r e) \<and> quantized (bucket_g e) \<and> quantized (bucket_b e) \<and>
    colorKey (bucket_r d) (bucket_g d) (bucket_b d) \<noteq> colorKey (bucket_r e) (bucket_g e) (bucket_b e)"
  show "encodeBucket d \<noteq> encodeBucket e"
  proof
    assume "encodeBucket d = encodeBucket e"
    with a have "bucket_r d = bucket_r e \<and> bucket_g d = bucket_g e \<and> bucket_b d = bucket_b e"
      by (intro encodeBucket_inj) simp_all
    with a show False by simp
  qed
qed

theorem extracted_colors_distinct_witness:
  "sortedColors [100, 150, 200, 255, 0, 0, 0, 0, 0, 0, 0, 0, 0, 0, 0, 0, 255, 255, 255, 255]
     = [''#64a0c8'', ''#ffffff''] \<and>
   distinct [''#64a0c8'', ''#ffffff''] \<and>
   quantized 260 \<and> max 0 (min 255 260) = max 0 (min 255 (260 :: int)) \<and>
   quantized 100 \<and> quantized 160 \<and> quantized 200 \<and>
   colorKey 100 160 200 \<noteq> colorKey 260 260 260 \<and>
   encodeBucket \<lparr>bucket_r = 100, bucket_g = 160, bucket_b = 200, bucket_count = 1\<rparr>
     \<noteq> encodeBucket \<lparr>bucket_r = 260, bucket_g = 260, bucket_b = 260, bucket_count = 1\<rparr>"
proof -
  have q: "quantized 260" "quantized 100" "quantized 160" "quantized 200"
    by (simp_all add: quantized_def)
  have k: "colorKey 100 160 200 \<noteq> colorKey 260 260 260" by code_simp
  note t = extracted_colors_distinct
    [of "[100, 150, 200, 255, 0, 0, 0, 0, 0, 0, 0, 0, 0, 0, 0, 0, 255, 255, 255, 255]" 260 260
      "\<lparr>bucket_r = 100, bucket_g = 160, bucket_b = 200, bucket_count = 1\<rparr>"
      "\<lparr>bucket_r = 260, bucket_g = 260, bucket_b = 260, bucket_count = 1\<rparr>",
      unfolded example_buffer]
  from t have d: "distinct [''#64a0c8'', ''#ffffff'']" by blast
  from t q k have e: "encodeBucket \<lparr>bucket_r = 100, bucket_g = 160, bucket_b = 200, bucket_count = 1\<rparr>
     \<noteq> encodeBucket \<lparr>bucket_r = 260, bucket_g = 260, bucket_b = 260, bucket_count = 1\<rparr>"
    by simp
  show ?thesis
    by (intro conjI, rule example_buffer, rule d, rule q(1), rule refl, rule q(2), rule q(3),
        rule q(4), rule k, rule e)
qed

end
